theory Spec2Isabelle
  imports Main "HOL-Library.Log_Nat"
begin

section \<open>The open addressing hash table of lab 05\<close>

text \<open>
  A shallow embedding of \<^verbatim>\<open>lab_05/src/modules/hash_table_open_addressing.py\<close> and of
  \<^verbatim>\<open>simple_hash\<close> from \<^verbatim>\<open>hash_functions.py\<close>.

  \<^item> A cell of \<^verbatim>\<open>_keys\<close> holds \<^verbatim>\<open>None\<close>, the sentinel \<^verbatim>\<open>_DELETED\<close> or a string:
    the datatype \<open>slot\<close>.
  \<^item> A stored value is any Python object, \<^verbatim>\<open>None\<close> included: \<open>'v option\<close>, where
    \<open>None\<close> is Python's \<^verbatim>\<open>None\<close>.
  \<^item> The object is a record; every method takes the record and returns the new one.
  \<^item> \<^verbatim>\<open>_probe_sequence\<close> is a generator that never ends, and the three walks over it
    leave only through a \<^verbatim>\<open>return\<close>. Each walk is a \<^theory_text>\<open>partial_function\<close> in
    the option monad: the outer \<open>None\<close> says that the call never returns.
  \<^item> Python strings are sequences of code points; \<open>string\<close> is a list of 8-bit
    characters, so the keys of the model are the strings of code points below 256.
\<close>

subsection \<open>Data\<close>

datatype mode = Linear | Double

datatype slot = Empty | Deleted | Key string

text \<open>
  The attribute \<^verbatim>\<open>_x\<close> of the class is the field \<open>t_x\<close>. \<^verbatim>\<open>_hash_func\<close> holds
  \<^verbatim>\<open>hash_func or hash\<close>. \<^verbatim>\<open>_second_hash\<close> is either the function given to the
  constructor or a closure over \<^verbatim>\<open>self\<close> that calls the builtin \<^verbatim>\<open>hash\<close>; the
  record keeps the constructor's argument, and \<open>second_hash\<close> below applies the closure.
  The builtin \<^verbatim>\<open>hash\<close> of the running interpreter is the field \<open>builtin_hash\<close>.
  The threshold is a Python float, that is a rational number.
\<close>

record 'v table =
  t_capacity :: nat
  t_keys :: "slot list"
  t_values :: "'v option list"
  t_size :: int
  t_hash_func :: "string \<Rightarrow> int"
  t_second_hash_func :: "(string \<Rightarrow> int) option"
  t_mode :: mode
  t_load_factor_threshold :: rat
  collisions :: int
  builtin_hash :: "string \<Rightarrow> int"

subsection \<open>Hash functions\<close>

definition simple_hash :: "string \<Rightarrow> int" where
  "simple_hash s = and (foldl (\<lambda>h ch. h + of_char ch) 0 s) 0x7FFFFFFF"

subsection \<open>Construction\<close>

definition new_table ::
  "(string \<Rightarrow> int) \<Rightarrow> int \<Rightarrow> (string \<Rightarrow> int) option \<Rightarrow> (string \<Rightarrow> int) option
    \<Rightarrow> mode \<Rightarrow> rat \<Rightarrow> 'v table" where
  "new_table py_hash capacity hash_func second_hash_func mode load_factor_threshold =
     \<lparr> t_capacity = nat (max 3 capacity),
       t_keys = replicate (nat (max 3 capacity)) Empty,
       t_values = replicate (nat (max 3 capacity)) None,
       t_size = 0,
       t_hash_func = (case hash_func of Some f \<Rightarrow> f | None \<Rightarrow> py_hash),
       t_second_hash_func = second_hash_func,
       t_mode = mode,
       t_load_factor_threshold = load_factor_threshold,
       collisions = 0,
       builtin_hash = py_hash \<rparr>"

subsection \<open>The probe sequence\<close>

definition second_hash :: "'v table \<Rightarrow> string \<Rightarrow> int" where
  "second_hash t s =
     (case t_second_hash_func t of
        Some f \<Rightarrow> f s
      | None \<Rightarrow> 1 + builtin_hash t s mod (int (t_capacity t) - 1))"

definition h1 :: "'v table \<Rightarrow> string \<Rightarrow> nat" where
  "h1 t key = nat (t_hash_func t key mod int (t_capacity t))"

definition step :: "'v table \<Rightarrow> string \<Rightarrow> nat" where
  "step t key =
     (let s = nat (second_hash t key mod int (t_capacity t))
      in if s = 0 then 1 else s)"

text \<open>\<open>probe_sequence t key i\<close> is the index that the generator yields at its counter \<open>i\<close>.\<close>

definition probe_sequence :: "'v table \<Rightarrow> string \<Rightarrow> nat \<Rightarrow> nat" where
  "probe_sequence t key i =
     (case t_mode t of
        Linear \<Rightarrow> (h1 t key + i) mod t_capacity t
      | Double \<Rightarrow> (h1 t key + i * step t key) mod t_capacity t)"

subsection \<open>The load factor\<close>

text \<open>
  \<^verbatim>\<open>self._size / self._capacity\<close> is Python's true division of two integers: the
  quotient rounded to the nearest binary64 number, ties to even. \<open>float_div a b\<close> is
  that number for \<open>0 < b\<close> and a quotient in the normal range of binary64 (from
  \<open>2 ^ 52\<close> on, \<open>m\<close> is the 53-bit significand and \<open>sh\<close> the shift that produced it).
\<close>

definition float_div_pos :: "int \<Rightarrow> int \<Rightarrow> rat" where
  "float_div_pos a b =
     (let d = bitlen a - bitlen b;
          p = (if b * 2 ^ nat d \<le> a * 2 ^ nat (- d) then d else d - 1);
          sh = 52 - p;
          num = a * 2 ^ nat sh;
          den = b * 2 ^ nat (- sh);
          m0 = num div den;
          r = num mod den;
          m = (if 2 * r < den then m0
               else if den < 2 * r then m0 + 1
               else if even m0 then m0 else m0 + 1)
      in of_int (m * 2 ^ nat (- sh)) / of_int (2 ^ nat sh))"

definition float_div :: "int \<Rightarrow> int \<Rightarrow> rat" where
  "float_div a b =
     (if a = 0 then 0
      else if a < 0 then - float_div_pos (- a) b
      else float_div_pos a b)"

definition load_factor :: "'v table \<Rightarrow> rat" where
  "load_factor t = float_div (t_size t) (int (t_capacity t))"

subsection \<open>Lookup and removal\<close>

partial_function (option) get_loop :: "'v table \<Rightarrow> string \<Rightarrow> nat \<Rightarrow> 'v option option" where
  "get_loop t key i =
     (let idx = probe_sequence t key i
      in case t_keys t ! idx of
           Empty \<Rightarrow> Some None
         | Deleted \<Rightarrow> get_loop t key (Suc i)
         | Key k \<Rightarrow> if k = key then Some (t_values t ! idx) else get_loop t key (Suc i))"

definition get :: "'v table \<Rightarrow> string \<Rightarrow> 'v option option" where
  "get t key = get_loop t key 0"

definition contains :: "'v table \<Rightarrow> string \<Rightarrow> bool option" where
  "contains t key = map_option (\<lambda>r. r \<noteq> None) (get t key)"

partial_function (option) remove_loop ::
  "'v table \<Rightarrow> string \<Rightarrow> nat \<Rightarrow> ('v table \<times> bool) option" where
  "remove_loop t key i =
     (let idx = probe_sequence t key i
      in case t_keys t ! idx of
           Empty \<Rightarrow> Some (t, False)
         | Deleted \<Rightarrow> remove_loop t key (Suc i)
         | Key k \<Rightarrow>
             if k = key
             then Some (t\<lparr> t_keys := (t_keys t)[idx := Deleted],
                          t_values := (t_values t)[idx := None],
                          t_size := t_size t - 1 \<rparr>, True)
             else remove_loop t key (Suc i))"

definition remove :: "'v table \<Rightarrow> string \<Rightarrow> ('v table \<times> bool) option" where
  "remove t key = remove_loop t key 0"

subsection \<open>Insertion and rehashing\<close>

text \<open>The \<^verbatim>\<open>for\<close> loop of \<^verbatim>\<open>insert\<close>, with its local \<^verbatim>\<open>first_del\<close>.\<close>

partial_function (option) insert_loop ::
  "'v table \<Rightarrow> string \<Rightarrow> 'v option \<Rightarrow> nat \<Rightarrow> nat option \<Rightarrow> 'v table option" where
  "insert_loop t key val i first_del =
     (let idx = probe_sequence t key i
      in case t_keys t ! idx of
           Empty \<Rightarrow>
             (let target_idx = (case first_del of Some d \<Rightarrow> d | None \<Rightarrow> idx)
              in Some (t\<lparr> t_keys := (t_keys t)[target_idx := Key key],
                          t_values := (t_values t)[target_idx := val],
                          t_size := t_size t + 1,
                          collisions := (if target_idx \<noteq> idx then collisions t + 1
                                         else collisions t) \<rparr>))
         | Deleted \<Rightarrow>
             insert_loop t key val (Suc i) (if first_del = None then Some idx else first_del)
         | Key k \<Rightarrow>
             if k = key
             then Some (t\<lparr> t_values := (t_values t)[idx := val] \<rparr>)
             else insert_loop (t\<lparr> collisions := collisions t + 1 \<rparr>) key val (Suc i) first_del)"

text \<open>The pairs that \<^verbatim>\<open>_rehash\<close> collects from \<^verbatim>\<open>zip(self._keys, self._values)\<close>.\<close>

fun old_items :: "slot list \<Rightarrow> 'v option list \<Rightarrow> (string \<times> 'v option) list" where
  "old_items (Key k # ks) (v # vs) = (k, v) # old_items ks vs"
| "old_items (s # ks) (v # vs) = old_items ks vs"
| "old_items ks vs = []"

text \<open>The assignments of \<^verbatim>\<open>_rehash\<close> between collecting the pairs and inserting them.\<close>

definition reset :: "'v table \<Rightarrow> nat \<Rightarrow> 'v table" where
  "reset t new_capacity =
     t\<lparr> t_capacity := max 3 new_capacity,
        t_keys := replicate (max 3 new_capacity) Empty,
        t_values := replicate (max 3 new_capacity) None,
        t_size := 0 \<rparr>"

text \<open>
  \<^verbatim>\<open>insert\<close> calls \<^verbatim>\<open>_rehash\<close>, whose last loop calls \<^verbatim>\<open>insert\<close>: one recursive
  function over the three kinds of call, \<open>Reinsert\<close> being that last loop.
\<close>

datatype 'v call =
  Insert "'v table" string "'v option"
| Rehash "'v table" nat
| Reinsert "'v table" "(string \<times> 'v option) list"

partial_function (option) exec :: "'v call \<Rightarrow> 'v table option" where
  "exec c =
     (case c of
        Insert t key val \<Rightarrow>
          Option.bind
            (if t_load_factor_threshold t \<le> load_factor t
             then exec (Rehash t (t_capacity t * 2 + 1)) else Some t)
            (\<lambda>t1. insert_loop t1 key val 0 None)
      | Rehash t new_capacity \<Rightarrow>
          exec (Reinsert (reset t new_capacity) (old_items (t_keys t) (t_values t)))
      | Reinsert t items \<Rightarrow>
          (case items of
             [] \<Rightarrow> Some t
           | (k, v) # rest \<Rightarrow>
               Option.bind (exec (Insert t k v)) (\<lambda>t1. exec (Reinsert t1 rest))))"

declare get_loop.simps [code] remove_loop.simps [code] insert_loop.simps [code] exec.simps [code]

definition insert_key :: "'v table \<Rightarrow> string \<Rightarrow> 'v option \<Rightarrow> 'v table option" where
  "insert_key t key val = exec (Insert t key val)"

definition rehash :: "'v table \<Rightarrow> nat \<Rightarrow> 'v table option" where
  "rehash t new_capacity = exec (Rehash t new_capacity)"

definition reinsert :: "'v table \<Rightarrow> (string \<times> 'v option) list \<Rightarrow> 'v table option" where
  "reinsert t items = exec (Reinsert t items)"

subsection \<open>The scenario with capacity 7\<close>

text \<open>
  A table of capacity 7 in linear mode with \<open>simple_hash\<close> and the default threshold
  (the float written \<^verbatim>\<open>0.6\<close>), then \<^verbatim>\<open>insert("a", 1)\<close>, \<^verbatim>\<open>insert("h", 2)\<close> and
  \<^verbatim>\<open>remove("a")\<close>. The result collects what the scenario observes: the keys and the
  collision counter after the two insertions, both lookups, what \<^verbatim>\<open>remove\<close> returns,
  and the keys and both lookups after it.
\<close>

definition scenario_table :: "(string \<Rightarrow> int) \<Rightarrow> int table" where
  "scenario_table py_hash =
     new_table py_hash 7 (Some simple_hash) None Linear (5404319552844595 / 9007199254740992)"

definition scenario ::
  "(string \<Rightarrow> int) \<Rightarrow>
     (slot list \<times> int \<times> int option option \<times> int option option \<times> bool \<times>
      slot list \<times> int option option \<times> int option option) option" where
  "scenario py_hash =
     Option.bind (insert_key (scenario_table py_hash) ''a'' (Some 1)) (\<lambda>t1.
     Option.bind (insert_key t1 ''h'' (Some 2)) (\<lambda>t2.
     Option.bind (remove t2 ''a'') (\<lambda>(t3, removed).
       Some (t_keys t2, collisions t2, get t2 ''a'', get t2 ''h'', removed,
             t_keys t3, get t3 ''a'', get t3 ''h''))))"

section \<open>Notions of the specification\<close>

subsection \<open>Tables as the class keeps them, and where a walk ends\<close>

text \<open>
  The constructor and \<^verbatim>\<open>_rehash\<close> allocate both arrays with the length \<^verbatim>\<open>_capacity\<close>,
  which is at least 3, and nothing else assigns them: \<open>well_formed\<close>. Every table
  reachable through the methods is well formed (lemma \<open>reachable_inv\<close>, through \<open>table_inv\<close>); on such a table
  every index that a walk reads is within the arrays.

  The three walks leave their loop at a slot that is \<^verbatim>\<open>None\<close> or holds the key:
  \<open>stops t key i\<close> says that the slot of probe \<open>i\<close> is such a slot, and
  \<open>first_stop t key n\<close> that \<open>n\<close> is the first such probe. \<open>found_at\<close> adds that the
  slot holds the key, with the value \<open>v\<close>. \<open>remove_at t idx\<close> is what \<^verbatim>\<open>remove\<close> does
  and returns at the slot that ends its walk; \<open>ins_update\<close> and \<open>ins_place\<close> are the two
  ways in which the walk of \<^verbatim>\<open>insert\<close> writes the table (an existing key, a new one),
  with the collision counter it leaves; \<open>ins_post\<close> is what a returning walk of
  \<^verbatim>\<open>insert\<close>, entered at counter \<open>i\<close> with \<^verbatim>\<open>first_del = fd\<close>, has done.
\<close>

definition well_formed :: "'v table \<Rightarrow> bool" where
  "well_formed t = (length (t_keys t) = t_capacity t \<and> length (t_values t) = t_capacity t \<and> 3 \<le> t_capacity t)"

definition stops :: "'v table \<Rightarrow> string \<Rightarrow> nat \<Rightarrow> bool" where
  "stops t key i = (t_keys t ! probe_sequence t key i = Empty \<or> t_keys t ! probe_sequence t key i = Key key)"

definition first_stop :: "'v table \<Rightarrow> string \<Rightarrow> nat \<Rightarrow> bool" where
  "first_stop t key n = (stops t key n \<and> (\<forall>j<n. \<not> stops t key j))"

definition found_at :: "'v table \<Rightarrow> string \<Rightarrow> nat \<Rightarrow> 'v option \<Rightarrow> bool" where
  "found_at t k n v =
     (first_stop t k n \<and> t_keys t ! probe_sequence t k n = Key k \<and>
      t_values t ! probe_sequence t k n = v)"

definition remove_at :: "'v table \<Rightarrow> nat \<Rightarrow> 'v table \<times> bool" where
  "remove_at t idx =
     (case t_keys t ! idx of
        Key k \<Rightarrow> (t\<lparr> t_keys := (t_keys t)[idx := Deleted],
                      t_values := (t_values t)[idx := None],
                      t_size := t_size t - 1 \<rparr>, True)
      | _ \<Rightarrow> (t, False))"

definition ins_update :: "'v table \<Rightarrow> nat \<Rightarrow> 'v option \<Rightarrow> int \<Rightarrow> 'v table" where
  "ins_update t idx v c = t\<lparr> t_values := (t_values t)[idx := v], collisions := c \<rparr>"

definition ins_place :: "'v table \<Rightarrow> string \<Rightarrow> nat \<Rightarrow> 'v option \<Rightarrow> int \<Rightarrow> 'v table" where
  "ins_place t k idx v c =
     t\<lparr> t_keys := (t_keys t)[idx := Key k], t_values := (t_values t)[idx := v],
        t_size := t_size t + 1, collisions := c \<rparr>"

definition ins_post :: "'v table \<Rightarrow> string \<Rightarrow> 'v option \<Rightarrow> nat \<Rightarrow> nat option \<Rightarrow> 'v table \<Rightarrow> bool" where
  "ins_post t k v i fd t' =
     (\<exists>n c m. i \<le> n \<and> first_stop t k n \<and> collisions t \<le> c \<and>
        (t_keys t ! probe_sequence t k n = Key k \<and> t' = ins_update t (probe_sequence t k n) v c
         \<or> t_keys t ! probe_sequence t k n = Empty \<and> m \<le> n \<and>
           (m = n \<or> t_keys t ! probe_sequence t k m = Deleted) \<and>
           t' = ins_place t k (probe_sequence t k m) v c \<and>
           (c = collisions t \<longleftrightarrow> fd = None \<and> i = n) \<and>
           (fd = None \<and> i = n \<longrightarrow> m = n)))"

subsection \<open>Occupied slots and what the operations keep\<close>

text \<open>
  \<open>occupied\<close> counts the slots that hold a key, and \<open>size_ok\<close> says that \<^verbatim>\<open>_size\<close> is that
  number. \<open>same_params\<close> relates two tables with the same hash functions, mode and
  threshold. \<open>basic_rel t t'\<close> collects what every returning \<^verbatim>\<open>insert\<close> and \<^verbatim>\<open>_rehash\<close>
  guarantees of its result \<open>t'\<close>; \<open>total_post\<close> and \<open>no_deleted\<close> add what holds on tables
  without tombstones.
\<close>

fun is_key :: "slot \<Rightarrow> bool" where
  "is_key (Key k) = True"
| "is_key s = False"

definition occupied :: "'v table \<Rightarrow> nat" where
  "occupied t = length (filter is_key (t_keys t))"

definition size_ok :: "'v table \<Rightarrow> bool" where
  "size_ok t = (t_size t = int (occupied t))"

definition same_params :: "'v table \<Rightarrow> 'v table \<Rightarrow> bool" where
  "same_params t t' =
     (t_hash_func t' = t_hash_func t \<and> t_second_hash_func t' = t_second_hash_func t \<and>
      t_mode t' = t_mode t \<and> t_load_factor_threshold t' = t_load_factor_threshold t \<and>
      builtin_hash t' = builtin_hash t)"

definition basic_rel :: "'v table \<Rightarrow> 'v table \<Rightarrow> bool" where
  "basic_rel t t' =
     (well_formed t' \<and> same_params t t' \<and> t_capacity t \<le> t_capacity t' \<and>
      collisions t \<le> collisions t' \<and> (size_ok t \<longrightarrow> size_ok t'))"

definition total_post :: "'v table \<Rightarrow> nat \<Rightarrow> 'v table \<Rightarrow> bool" where
  "total_post t n t' =
     (basic_rel t t' \<and> Deleted \<notin> set (t_keys t') \<and> occupied t' \<le> occupied t + n)"

definition no_deleted :: "'v table \<Rightarrow> bool" where
  "no_deleted t = (well_formed t \<and> Deleted \<notin> set (t_keys t))"

subsection \<open>The invariant of the slot array and the stored pairs\<close>

text \<open>
  \<open>key_at t k idx\<close>: slot \<open>idx\<close> holds the key \<open>k\<close>. The invariant \<open>table_inv\<close> of the
  tables built by the methods: no key is held by two slots, and the walk for a stored key
  meets no empty slot before the slot of the key. \<open>entries\<close> is the set of the stored
  (key, value) pairs, read off the arrays as \<^verbatim>\<open>_rehash\<close> reads them; \<open>upd\<close> and \<open>del\<close>
  are insertion and removal on such sets.
\<close>

definition key_at :: "'v table \<Rightarrow> string \<Rightarrow> nat \<Rightarrow> bool" where
  "key_at t k idx = (idx < length (t_keys t) \<and> t_keys t ! idx = Key k)"

definition distinct_keys :: "'v table \<Rightarrow> bool" where
  "distinct_keys t = (\<forall>i j k. key_at t k i \<longrightarrow> key_at t k j \<longrightarrow> i = j)"

definition reachable_keys :: "'v table \<Rightarrow> bool" where
  "reachable_keys t =
     (\<forall>idx k. key_at t k idx \<longrightarrow>
        (\<exists>n. probe_sequence t k n = idx \<and> (\<forall>j<n. t_keys t ! probe_sequence t k j \<noteq> Empty)))"

definition table_inv :: "'v table \<Rightarrow> bool" where
  "table_inv t = (well_formed t \<and> distinct_keys t \<and> reachable_keys t)"

definition entries :: "'v table \<Rightarrow> (string \<times> 'v option) set" where
  "entries t = set (old_items (t_keys t) (t_values t))"

definition upd :: "string \<Rightarrow> 'v option \<Rightarrow> (string \<times> 'v option) set \<Rightarrow> (string \<times> 'v option) set" where
  "upd k v E = {(k', v') \<in> E. k' \<noteq> k} \<union> {(k, v)}"

definition del :: "string \<Rightarrow> (string \<times> 'v option) set \<Rightarrow> (string \<times> 'v option) set" where
  "del k E = {(k', v') \<in> E. k' \<noteq> k}"

subsection \<open>What the recursive calls guarantee\<close>

text \<open>
  The statements proved by fixpoint induction over \<open>exec\<close>, one case for each kind of call.
\<close>

definition exec_basic_post :: "'v call \<Rightarrow> 'v table \<Rightarrow> bool" where
  "exec_basic_post c t' =
     (case c of
        Insert t k v \<Rightarrow> well_formed t \<longrightarrow> basic_rel t t'
      | Rehash t n \<Rightarrow> basic_rel (reset t n) t'
      | Reinsert t items \<Rightarrow> well_formed t \<longrightarrow> basic_rel t t')"

definition exec_inv_post :: "'v call \<Rightarrow> 'v table \<Rightarrow> bool" where
  "exec_inv_post c t' =
     (case c of
        Insert t k v \<Rightarrow> table_inv t \<longrightarrow> table_inv t' \<and> entries t' = upd k v (entries t)
      | Rehash t n \<Rightarrow>
          table_inv t' \<and> entries t' = fold (\<lambda>(k, v). upd k v) (old_items (t_keys t) (t_values t)) {}
      | Reinsert t items \<Rightarrow>
          table_inv t \<longrightarrow> table_inv t' \<and> entries t' = fold (\<lambda>(k, v). upd k v) items (entries t))"

definition exec_nodel_post :: "'v call \<Rightarrow> 'v table \<Rightarrow> bool" where
  "exec_nodel_post c t' =
     (case c of
        Insert t k v \<Rightarrow> no_deleted t \<longrightarrow> no_deleted t'
      | Rehash t n \<Rightarrow> no_deleted t'
      | Reinsert t items \<Rightarrow> no_deleted t \<longrightarrow> no_deleted t')"

subsection \<open>Reachable states and sequences of calls\<close>

text \<open>
  \<open>reachable\<close>: the states that a freshly constructed table can be in after calls of
  \<^verbatim>\<open>insert\<close>, \<^verbatim>\<open>remove\<close> and \<^verbatim>\<open>_rehash\<close> that returned. \<open>run t ops\<close> performs
  a sequence of calls of the public methods and collects what each call returned;
  \<open>insert_all\<close> inserts a list of pairs in order. Both are \<open>None\<close> when a call does not
  return.
\<close>

inductive reachable :: "'v table \<Rightarrow> bool" where
  new: "reachable (new_table py_hash capacity hash_func second_hash_func mode load_factor_threshold)"
| ins: "reachable t \<Longrightarrow> insert_key t k v = Some t' \<Longrightarrow> reachable t'"
| rem: "reachable t \<Longrightarrow> remove t k = Some (t', b) \<Longrightarrow> reachable t'"
| reh: "reachable t \<Longrightarrow> rehash t n = Some t' \<Longrightarrow> reachable t'"

datatype 'v operation = Insert_op string "'v option" | Get_op string | Remove_op string

datatype 'v outcome = Inserted | Got "'v option" | Removed bool

fun run :: "'v table \<Rightarrow> 'v operation list \<Rightarrow> ('v table \<times> 'v outcome list) option" where
  "run t [] = Some (t, [])"
| "run t (Insert_op k v # ops) =
     Option.bind (insert_key t k v) (\<lambda>t1.
       map_option (\<lambda>(t', rs). (t', Inserted # rs)) (run t1 ops))"
| "run t (Get_op k # ops) =
     Option.bind (get t k) (\<lambda>r.
       map_option (\<lambda>(t', rs). (t', Got r # rs)) (run t ops))"
| "run t (Remove_op k # ops) =
     Option.bind (remove t k) (\<lambda>(t1, b).
       map_option (\<lambda>(t', rs). (t', Removed b # rs)) (run t1 ops))"

fun insert_all :: "'v table \<Rightarrow> (string \<times> 'v option) list \<Rightarrow> 'v table option" where
  "insert_all t [] = Some t"
| "insert_all t ((k, v) # kvs) = Option.bind (insert_key t k v) (\<lambda>t1. insert_all t1 kvs)"

subsection \<open>Concrete tables\<close>

text \<open>
  The tables and sequences of calls at which the properties below are evaluated. The
  thresholds are the floats that Python reads for \<^verbatim>\<open>0.6\<close> (the default of the
  constructor) and \<^verbatim>\<open>0.01\<close>. \<open>tombstone_table\<close> is the table of capacity 3 after three
  insertions, each followed by its removal: every slot is a tombstone.
\<close>

definition default_load_factor_threshold :: rat where
  "default_load_factor_threshold = 5404319552844595 / 9007199254740992"

definition low_threshold :: rat where
  "low_threshold = 5764607523034235 / 576460752303423488"

definition small_table :: "int table" where
  "small_table = new_table (\<lambda>_. 0) 3 (Some simple_hash) None Linear default_load_factor_threshold"

definition tombstone_ops :: "int operation list" where
  "tombstone_ops =
     [Insert_op ''a'' (Some 1), Remove_op ''a'', Insert_op ''b'' (Some 2), Remove_op ''b'',
      Insert_op ''c'' (Some 3), Remove_op ''c'']"

definition tombstone_table :: "int table" where
  "tombstone_table = fst (the (run small_table tombstone_ops))"

definition scenario_ops :: "int operation list" where
  "scenario_ops = [Insert_op ''a'' (Some 1), Insert_op ''h'' (Some 2), Remove_op ''a'']"

definition scenario_final :: "int table" where
  "scenario_final = fst (the (run (scenario_table (\<lambda>_. 0)) scenario_ops))"

definition hidden_table :: "int table" where
  "hidden_table = the (insert_key (scenario_table (\<lambda>_. 0)) ''a'' None)"

definition one_key_table :: "int table" where
  "one_key_table = the (insert_key (scenario_table (\<lambda>_. 0)) ''a'' (Some 1))"

definition reuse_table :: "int table" where
  "reuse_table =
     fst (the (run (scenario_table (\<lambda>_. 0)) [Insert_op ''a'' (Some 1), Remove_op ''a'']))"

definition reuse_result :: "int table" where
  "reuse_result = the (insert_key reuse_table ''h'' (Some 2))"

definition other_hash_table :: "int table" where
  "other_hash_table =
     new_table (\<lambda>_. 5) 7 (Some simple_hash) None Double default_load_factor_threshold"

definition kvs_61 :: "(string \<times> int option) list" where
  "kvs_61 = map (\<lambda>n. ([char_of n], Some (int n))) [33..<94]"

definition table_101 :: "int table" where
  "table_101 = new_table (\<lambda>_. 0) 101 (Some simple_hash) None Linear default_load_factor_threshold"

definition nested_table :: "int table" where
  "nested_table =
     fst (the (run (new_table (\<lambda>_. 0) 3 (Some simple_hash) None Linear low_threshold)
                   [Insert_op ''a'' (Some 1), Insert_op ''b'' (Some 2)]))"

definition linear_4 :: "int table" where
  "linear_4 = new_table (\<lambda>_. 0) 4 (Some simple_hash) (Some (\<lambda>_. 2)) Linear
                default_load_factor_threshold"

definition double_4 :: "int table" where
  "double_4 = new_table (\<lambda>_. 0) 4 (Some simple_hash) (Some (\<lambda>_. 2)) Double
                default_load_factor_threshold"

definition double_4_two :: "int table" where
  "double_4_two = fst (the (run double_4 [Insert_op ''d'' (Some 1), Insert_op ''h'' (Some 2)]))"

section \<open>Lemmas\<close>

subsection \<open>The walk of get\<close>

lemma probe_lt: "0 < t_capacity t \<Longrightarrow> probe_sequence t key i < t_capacity t"
  by (simp add: probe_sequence_def split: mode.split)

lemma get_loop_skip: "\<not> stops t key i \<Longrightarrow> get_loop t key i = get_loop t key (Suc i)"
  by (subst get_loop.simps) (auto simp: stops_def Let_def split: slot.split)

lemma get_loop_stop:
  "stops t key i \<Longrightarrow> get_loop t key i =
     Some (case t_keys t ! probe_sequence t key i of Key k \<Rightarrow> t_values t ! probe_sequence t key i | _ \<Rightarrow> None)"
  by (subst get_loop.simps) (auto simp: stops_def Let_def split: slot.split)

lemma get_loop_skips:
  "\<forall>j. i \<le> j \<and> j < n \<longrightarrow> \<not> stops t key j \<Longrightarrow> i \<le> n \<Longrightarrow> get_loop t key i = get_loop t key n"
proof (induction "n - i" arbitrary: i)
  case 0
  then show ?case by simp
next
  case (Suc d)
  then have "\<not> stops t key i" "i < n" by auto
  then have "get_loop t key i = get_loop t key (Suc i)" by (simp add: get_loop_skip)
  also have "\<dots> = get_loop t key n" using Suc by (intro Suc.hyps(1)) auto
  finally show ?case .
qed

lemma get_loop_Some_stops:
  "get_loop t key i = Some r \<Longrightarrow> \<exists>n\<ge>i. stops t key n"
proof (induction t key i r rule: get_loop.raw_induct[rotated, consumes 1])
  case (1 f t key i r)
  show ?case
  proof (cases "stops t key i")
    case True then show ?thesis by auto
  next
    case False
    then have "f t key (Suc i) = Some r"
      using 1(2) by (auto simp: stops_def Let_def split: slot.splits if_splits)
    from 1(1)[OF this] show ?thesis by (meson Suc_leD)
  qed
qed

lemma ex_first_stop: "stops t key n \<Longrightarrow> \<exists>m\<le>n. first_stop t key m"
proof (induction n rule: less_induct)
  case (less n)
  show ?case
  proof (cases "\<exists>j<n. stops t key j")
    case True
    then obtain j where "j < n" "stops t key j" by auto
    from less.IH[OF this] show ?thesis using \<open>j < n\<close> by (meson le_trans less_imp_le)
  next
    case False
    with less.prems show ?thesis by (auto simp: first_stop_def)
  qed
qed

lemma get_first_stop:
  "first_stop t key n \<Longrightarrow> get t key =
     Some (case t_keys t ! probe_sequence t key n of Key k \<Rightarrow> t_values t ! probe_sequence t key n | _ \<Rightarrow> None)"
  unfolding get_def first_stop_def
  using get_loop_skips[of 0 n t key] get_loop_stop[of t key n] by auto

lemma get_Some_first_stop: "get t key = Some r \<Longrightarrow> \<exists>n. first_stop t key n"
  unfolding get_def using get_loop_Some_stops ex_first_stop by blast

lemma get_None_iff: "get t key = None \<longleftrightarrow> (\<forall>n. \<not> stops t key n)"
  using get_Some_first_stop[of t key] get_first_stop[of t key] ex_first_stop[of t key]
  by (metis first_stop_def not_Some_eq option.distinct(1))

lemma probe_sequence_cong:
  assumes "t_capacity t' = t_capacity t" "t_hash_func t' = t_hash_func t"
    "t_second_hash_func t' = t_second_hash_func t" "t_mode t' = t_mode t"
    "builtin_hash t' = builtin_hash t"
  shows "probe_sequence t' = probe_sequence t"
proof -
  have "second_hash t' = second_hash t"
    using assms by (intro ext) (simp add: second_hash_def split: option.split)
  then have "step t' = step t" "h1 t' = h1 t"
    using assms by (intro ext, simp add: step_def h1_def)+
  then show ?thesis
    using assms by (intro ext) (simp add: probe_sequence_def split: mode.split)
qed

lemma probe_sequence_upd [simp]:
  "probe_sequence (t\<lparr>collisions := c\<rparr>) = probe_sequence t"
  "probe_sequence (t\<lparr>t_keys := ks\<rparr>) = probe_sequence t"
  "probe_sequence (t\<lparr>t_values := vs\<rparr>) = probe_sequence t"
  "probe_sequence (t\<lparr>t_size := n\<rparr>) = probe_sequence t"
  by (rule probe_sequence_cong; simp)+

lemma stops_upd [simp]:
  "stops (t\<lparr>collisions := c\<rparr>) = stops t"
  "stops (t\<lparr>t_values := vs\<rparr>) = stops t"
  "stops (t\<lparr>t_size := n\<rparr>) = stops t"
  by (intro ext, simp add: stops_def)+

lemma first_stop_upd [simp]:
  "first_stop (t\<lparr>collisions := c\<rparr>) = first_stop t"
  "first_stop (t\<lparr>t_values := vs\<rparr>) = first_stop t"
  "first_stop (t\<lparr>t_size := n\<rparr>) = first_stop t"
  by (intro ext, simp add: first_stop_def)+

subsection \<open>The walk of remove\<close>

lemma remove_loop_skip: "\<not> stops t key i \<Longrightarrow> remove_loop t key i = remove_loop t key (Suc i)"
  by (subst remove_loop.simps) (auto simp: stops_def Let_def split: slot.split)

lemma remove_loop_stop:
  "stops t key i \<Longrightarrow> remove_loop t key i = Some (remove_at t (probe_sequence t key i))"
  by (subst remove_loop.simps) (auto simp: stops_def Let_def remove_at_def split: slot.split)

lemma remove_loop_skips:
  "\<forall>j. i \<le> j \<and> j < n \<longrightarrow> \<not> stops t key j \<Longrightarrow> i \<le> n \<Longrightarrow> remove_loop t key i = remove_loop t key n"
proof (induction "n - i" arbitrary: i)
  case 0
  then show ?case by simp
next
  case (Suc d)
  then have "\<not> stops t key i" "i < n" by auto
  then have "remove_loop t key i = remove_loop t key (Suc i)" by (simp add: remove_loop_skip)
  also have "\<dots> = remove_loop t key n" using Suc by (intro Suc.hyps(1)) auto
  finally show ?case .
qed

lemma remove_loop_Some_stops:
  "remove_loop t key i = Some r \<Longrightarrow> \<exists>n\<ge>i. stops t key n"
proof (induction t key i r rule: remove_loop.raw_induct[rotated, consumes 1])
  case (1 f t key i r)
  show ?case
  proof (cases "stops t key i")
    case True then show ?thesis by auto
  next
    case False
    then have "f t key (Suc i) = Some r"
      using 1(2) by (auto simp: stops_def Let_def split: slot.splits if_splits)
    from 1(1)[OF this] show ?thesis by (meson Suc_leD)
  qed
qed

lemma remove_first_stop:
  "first_stop t key n \<Longrightarrow> remove t key = Some (remove_at t (probe_sequence t key n))"
  unfolding remove_def first_stop_def
  using remove_loop_skips[of 0 n t key] remove_loop_stop[of t key n] by auto

lemma remove_Some_first_stop: "remove t key = Some r \<Longrightarrow> \<exists>n. first_stop t key n"
  unfolding remove_def using remove_loop_Some_stops ex_first_stop by blast

subsection \<open>The walk of insert\<close>

lemma insert_loop_Some_stops:
  "insert_loop t key val i fd = Some r \<Longrightarrow> \<exists>n\<ge>i. stops t key n"
proof (induction t key val i fd r rule: insert_loop.raw_induct[rotated, consumes 1])
  case (1 f t key val i fd r)
  show ?case
  proof (cases "stops t key i")
    case True then show ?thesis by auto
  next
    case False
    then have "(\<exists>fd'. f t key val (Suc i) fd' = Some r) \<or> (\<exists>c. f (t\<lparr>collisions := c\<rparr>) key val (Suc i) fd = Some r)"
      using 1(2) by (auto simp: stops_def Let_def split: slot.splits if_splits)
    then show ?thesis using 1(1) by (force dest: Suc_leD)
  qed
qed

lemma insert_loop_terminates:
  "stops t key n \<Longrightarrow> i \<le> n \<Longrightarrow> \<exists>t'. insert_loop t key val i fd = Some t'"
proof (induction "n - i" arbitrary: i t fd)
  case 0
  then have "stops t key i" by simp
  then show ?case by (subst insert_loop.simps) (auto simp: stops_def Let_def)
next
  case (Suc d)
  show ?case
  proof (cases "stops t key i")
    case True
    then show ?thesis by (subst insert_loop.simps) (auto simp: stops_def Let_def)
  next
    case False
    have *: "\<exists>t'. insert_loop t0 key val (Suc i) fd0 = Some t'" if "stops t0 = stops t" for t0 fd0
      using Suc(1)[of "Suc i" t0 fd0] Suc(2-) that by auto
    from False show ?thesis
      by (subst insert_loop.simps) (auto simp: stops_def[of t] Let_def * split: slot.split)
  qed
qed

lemma ins_coll [simp]:
  "ins_update (t\<lparr>collisions := x\<rparr>) idx v c = ins_update t idx v c"
  "ins_place (t\<lparr>collisions := x\<rparr>) k idx v c = ins_place t k idx v c"
  by (simp_all add: ins_update_def ins_place_def)

lemma insert_loop_spec:
  assumes "insert_loop t k v i fd = Some t'"
    and "\<forall>j<i. \<not> stops t k j"
    and "\<forall>d. fd = Some d \<longrightarrow> (\<exists>m<i. d = probe_sequence t k m \<and> t_keys t ! d = Deleted)"
  shows "ins_post t k v i fd t'"
  using assms
proof (induction t k v i fd t' rule: insert_loop.raw_induct[rotated, consumes 1])
  case (1 f t k v i fd t')
  let ?idx = "probe_sequence t k i"
  show ?case
  proof (cases "t_keys t ! ?idx")
    case Empty
    then have fs: "first_stop t k i" using 1(3) by (simp add: first_stop_def stops_def)
    show ?thesis
    proof (cases fd)
      case None
      then have "t' = ins_place t k ?idx v (collisions t)"
        using 1(2) Empty by (auto simp: Let_def ins_place_def)
      then show ?thesis unfolding ins_post_def using fs Empty None
        by (intro exI[of _ i] exI[of _ "collisions t"] exI[of _ i]) auto
    next
      case (Some d)
      then obtain m where m: "m < i" "d = probe_sequence t k m" "t_keys t ! d = Deleted"
        using 1(4) by auto
      then have "d \<noteq> ?idx" using Empty by auto
      then have "t' = ins_place t k d v (collisions t + 1)"
        using 1(2) Empty Some by (auto simp: Let_def ins_place_def)
      then show ?thesis unfolding ins_post_def using fs Empty Some m
        by (intro exI[of _ i] exI[of _ "collisions t + 1"] exI[of _ m]) auto
    qed
  next
    case Deleted
    let ?fd = "if fd = None then Some ?idx else fd"
    have call: "f t k v (Suc i) ?fd = Some t'"
      using 1(2) Deleted by (simp add: Let_def)
    have p1: "\<forall>j<Suc i. \<not> stops t k j"
      using 1(3) Deleted by (auto simp: less_Suc_eq stops_def)
    have p2: "\<forall>d. ?fd = Some d \<longrightarrow> (\<exists>m<Suc i. d = probe_sequence t k m \<and> t_keys t ! d = Deleted)"
      using 1(4) Deleted by (auto simp: less_Suc_eq)
    from 1(1)[OF call p1 p2] show ?thesis
      unfolding ins_post_def
      apply (elim exE conjE)
      subgoal for n c m
        apply (rule exI[of _ n], rule exI[of _ c], rule exI[of _ m])
        apply (auto split: if_splits)
        done
      done
  next
    case (Key k')
    show ?thesis
    proof (cases "k' = k")
      case True
      then have fs: "first_stop t k i" using 1(3) Key by (simp add: first_stop_def stops_def)
      have "t' = ins_update t ?idx v (collisions t)"
        using 1(2) Key True by (auto simp: Let_def ins_update_def)
      then show ?thesis unfolding ins_post_def using fs Key True
        by (intro exI[of _ i] exI[of _ "collisions t"]) auto
    next
      case False
      let ?t1 = "t\<lparr>collisions := collisions t + 1\<rparr>"
      have call: "f ?t1 k v (Suc i) fd = Some t'"
        using 1(2) Key False by (simp add: Let_def)
      have p1: "\<forall>j<Suc i. \<not> stops ?t1 k j"
        using 1(3) Key False by (auto simp: less_Suc_eq stops_def)
      have p2: "\<forall>d. fd = Some d \<longrightarrow> (\<exists>m<Suc i. d = probe_sequence ?t1 k m \<and> t_keys ?t1 ! d = Deleted)"
        using 1(4) by (auto simp: less_Suc_eq)
      from 1(1)[OF call p1 p2] show ?thesis
        unfolding ins_post_def
        apply (elim exE conjE)
        subgoal for n c m
          apply (rule exI[of _ n], rule exI[of _ c], rule exI[of _ m])
          apply (auto)
          done
        done
    qed
  qed
qed

lemma insert_loop_post: "insert_loop t k v 0 None = Some t' \<Longrightarrow> ins_post t k v 0 None t'"
  by (rule insert_loop_spec) auto

lemma length_filter_update:
  "i < length xs \<Longrightarrow>
   length (filter P (xs[i := x])) + (if P (xs ! i) then 1 else 0) =
   length (filter P xs) + (if P x then 1 else 0)"
proof (induction xs arbitrary: i)
  case Nil
  then show ?case by simp
next
  case (Cons a xs)
  then show ?case by (cases i) auto
qed

lemma wf_probe_lt: "well_formed t \<Longrightarrow> probe_sequence t k i < length (t_keys t)"
  "well_formed t \<Longrightarrow> probe_sequence t k i < length (t_values t)"
  "well_formed t \<Longrightarrow> probe_sequence t k i < t_capacity t"
  using probe_lt[of t k i] by (auto simp: well_formed_def)

lemma wf_ins [simp]: "well_formed (ins_update t idx v c) = well_formed t" "well_formed (ins_place t k idx v c) = well_formed t"
  by (simp_all add: well_formed_def ins_update_def ins_place_def)

lemma probe_ins [simp]:
  "probe_sequence (ins_update t idx v c) = probe_sequence t"
  "probe_sequence (ins_place t k idx v c) = probe_sequence t"
  by (simp_all add: ins_update_def ins_place_def)

lemma occupied_ins_update [simp]: "occupied (ins_update t idx v c) = occupied t"
  by (simp add: occupied_def ins_update_def)

lemma occupied_ins_place:
  "idx < length (t_keys t) \<Longrightarrow> \<not> is_key (t_keys t ! idx) \<Longrightarrow>
   occupied (ins_place t k idx v c) = Suc (occupied t)"
  using length_filter_update[of idx "t_keys t" is_key "Key k"]
  by (simp add: occupied_def ins_place_def)

lemma same_params_refl [simp]: "same_params t t"
  by (simp add: same_params_def)

lemma same_params_trans: "same_params t t1 \<Longrightarrow> same_params t1 t2 \<Longrightarrow> same_params t t2"
  by (simp add: same_params_def)

lemma same_params_ins [simp]:
  "same_params t (ins_update t idx v c)" "same_params t (ins_place t k idx v c)"
  by (simp_all add: same_params_def ins_update_def ins_place_def)

lemma ins_post_basic:
  assumes "ins_post t k v i fd t'" "well_formed t"
  shows "well_formed t' \<and> same_params t t' \<and> t_capacity t' = t_capacity t \<and>
         collisions t \<le> collisions t' \<and>
         t_size t' - int (occupied t') = t_size t - int (occupied t) \<and>
         occupied t' \<le> Suc (occupied t) \<and>
         (Deleted \<notin> set (t_keys t) \<longrightarrow> Deleted \<notin> set (t_keys t'))"
proof -
  from assms(1) obtain n c m where
    nc: "i \<le> n" "first_stop t k n" "collisions t \<le> c" and
    alt: "t_keys t ! probe_sequence t k n = Key k \<and> t' = ins_update t (probe_sequence t k n) v c
         \<or> t_keys t ! probe_sequence t k n = Empty \<and> m \<le> n \<and>
           (m = n \<or> t_keys t ! probe_sequence t k m = Deleted) \<and>
           t' = ins_place t k (probe_sequence t k m) v c"
    unfolding ins_post_def by blast
  from alt show ?thesis
  proof
    assume "t_keys t ! probe_sequence t k n = Key k \<and> t' = ins_update t (probe_sequence t k n) v c"
    then show ?thesis using assms(2) nc
      by (auto simp: ins_update_def well_formed_def same_params_def occupied_def)
  next
    assume a: "t_keys t ! probe_sequence t k n = Empty \<and> m \<le> n \<and>
           (m = n \<or> t_keys t ! probe_sequence t k m = Deleted) \<and>
           t' = ins_place t k (probe_sequence t k m) v c"
    then have nk: "\<not> is_key (t_keys t ! probe_sequence t k m)" by auto
    have occ: "occupied t' = Suc (occupied t)"
      using a occupied_ins_place[OF wf_probe_lt(1)[OF assms(2)] nk] by simp
    have "set (t_keys t') \<subseteq> insert (Key k) (set (t_keys t))"
      using a by (auto simp: ins_place_def dest: subsetD[OF set_update_subset_insert])
    then have "Deleted \<notin> set (t_keys t) \<longrightarrow> Deleted \<notin> set (t_keys t')" by auto
    moreover have "t_size t' = t_size t + 1" "collisions t' = c" "t_capacity t' = t_capacity t"
      using a by (auto simp: ins_place_def)
    ultimately show ?thesis using a assms(2) nc occ by auto
  qed
qed

subsection \<open>insert and rehash as the source writes them\<close>

lemma insert_key_eq:
  "insert_key t key val =
     Option.bind
       (if t_load_factor_threshold t \<le> load_factor t
        then rehash t (t_capacity t * 2 + 1) else Some t)
       (\<lambda>t1. insert_loop t1 key val 0 None)"
  unfolding insert_key_def rehash_def by (subst exec.simps) simp

lemma rehash_eq:
  "rehash t new_capacity = reinsert (reset t new_capacity) (old_items (t_keys t) (t_values t))"
  unfolding reinsert_def rehash_def by (subst exec.simps) simp

lemma reinsert_Nil: "reinsert t [] = Some t"
  unfolding reinsert_def by (subst exec.simps) simp

lemma reinsert_Cons:
  "reinsert t ((k, v) # rest) = Option.bind (insert_key t k v) (\<lambda>t1. reinsert t1 rest)"
  unfolding reinsert_def insert_key_def by (subst exec.simps) simp

lemma basic_rel_trans: "basic_rel t t1 \<Longrightarrow> basic_rel t1 t2 \<Longrightarrow> basic_rel t t2"
  by (auto simp: basic_rel_def intro: same_params_trans)

lemma basic_rel_refl: "well_formed t \<Longrightarrow> basic_rel t t"
  by (simp add: basic_rel_def)

lemma insert_loop_basic:
  "insert_loop t k v 0 None = Some t' \<Longrightarrow> well_formed t \<Longrightarrow> basic_rel t t'"
  using ins_post_basic[OF insert_loop_post, of t k v t']
  by (auto simp: basic_rel_def size_ok_def)

lemma wf_reset [simp]: "well_formed (reset t n)"
  by (simp add: well_formed_def reset_def)

lemma occupied_reset [simp]: "occupied (reset t n) = 0"
  by (simp add: occupied_def reset_def filter_empty_conv)

lemma reset_fields [simp]:
  "t_capacity (reset t n) = max 3 n" "t_size (reset t n) = 0"
  "collisions (reset t n) = collisions t" "same_params t (reset t n)"
  "t_keys (reset t n) = replicate (max 3 n) Empty"
  "t_values (reset t n) = replicate (max 3 n) None"
  "t_mode (reset t n) = t_mode t"
  "t_load_factor_threshold (reset t n) = t_load_factor_threshold t"
  "t_hash_func (reset t n) = t_hash_func t"
  "t_second_hash_func (reset t n) = t_second_hash_func t"
  "builtin_hash (reset t n) = builtin_hash t"
  by (simp_all add: reset_def same_params_def)

lemma exec_basic: "exec c = Some t' \<Longrightarrow> exec_basic_post c t'"
proof (induction c t' rule: exec.raw_induct[rotated, consumes 1])
  case (1 f c t')
  show ?case
  proof (cases c)
    case (Insert t k v)
    show ?thesis
    proof (cases "t_load_factor_threshold t \<le> load_factor t")
      case True
      then obtain t1 where t1: "f (Rehash t (t_capacity t * 2 + 1)) = Some t1"
        "insert_loop t1 k v 0 None = Some t'"
        using 1(2) Insert by (auto simp: bind_eq_Some_conv)
      from 1(1)[OF t1(1)] have r: "basic_rel (reset t (t_capacity t * 2 + 1)) t1"
        by (simp add: exec_basic_post_def)
      then have "well_formed t1" by (simp add: basic_rel_def)
      from insert_loop_basic[OF t1(2) this] have "basic_rel t1 t'" .
      with r have "basic_rel (reset t (t_capacity t * 2 + 1)) t'" by (rule basic_rel_trans)
      then have "basic_rel t t'"
        by (auto simp: basic_rel_def size_ok_def same_params_def)
      then show ?thesis using Insert by (simp add: exec_basic_post_def)
    next
      case False
      then have "insert_loop t k v 0 None = Some t'"
        using 1(2) Insert by simp
      then show ?thesis using Insert by (simp add: exec_basic_post_def insert_loop_basic)
    qed
  next
    case (Rehash t n)
    then have "f (Reinsert (reset t n) (old_items (t_keys t) (t_values t))) = Some t'"
      using 1(2) by simp
    from 1(1)[OF this] show ?thesis using Rehash by (simp add: exec_basic_post_def)
  next
    case (Reinsert t items)
    show ?thesis
    proof (cases items)
      case Nil
      then show ?thesis using 1(2) Reinsert by (auto simp: exec_basic_post_def basic_rel_refl)
    next
      case (Cons kv rest)
      obtain k v where kv: "kv = (k, v)" by (cases kv)
      then obtain t1 where t1: "f (Insert t k v) = Some t1" "f (Reinsert t1 rest) = Some t'"
        using 1(2) Reinsert Cons by (auto simp: bind_eq_Some_conv)
      show ?thesis
      proof (cases "well_formed t")
        case True
        then have a: "basic_rel t t1" using 1(1)[OF t1(1)] by (simp add: exec_basic_post_def)
        then have "well_formed t1" by (simp add: basic_rel_def)
        then have "basic_rel t1 t'" using 1(1)[OF t1(2)] by (simp add: exec_basic_post_def)
        with a have "basic_rel t t'" by (rule basic_rel_trans)
        then show ?thesis using Reinsert by (simp add: exec_basic_post_def)
      next
        case False
        then show ?thesis using Reinsert by (simp add: exec_basic_post_def)
      qed
    qed
  qed
qed

lemma insert_key_basic: "insert_key t k v = Some t' \<Longrightarrow> well_formed t \<Longrightarrow> basic_rel t t'"
  using exec_basic[of "Insert t k v" t'] by (simp add: insert_key_def exec_basic_post_def)

lemma rehash_basic: "rehash t n = Some t' \<Longrightarrow> basic_rel (reset t n) t'"
  using exec_basic[of "Rehash t n" t'] by (simp add: rehash_def exec_basic_post_def)

lemma reinsert_basic: "reinsert t items = Some t' \<Longrightarrow> well_formed t \<Longrightarrow> basic_rel t t'"
  using exec_basic[of "Reinsert t items" t'] by (simp add: reinsert_def exec_basic_post_def)

subsection \<open>The key just inserted is found\<close>

lemma place_first_stop:
  assumes "well_formed t" "\<forall>j<m. \<not> stops t k j"
  shows "\<exists>m'\<le>m. found_at (ins_place t k (probe_sequence t k m) v c) k m' v \<and>
           probe_sequence t k m' = probe_sequence t k m"
proof -
  let ?p = "probe_sequence t k m"
  let ?t' = "ins_place t k ?p v c"
  define m' where "m' = (LEAST j. probe_sequence t k j = ?p)"
  have eq: "probe_sequence t k m' = ?p"
    unfolding m'_def by (rule LeastI[of _ m]) simp
  have le: "m' \<le> m" unfolding m'_def by (rule Least_le) simp
  have ne: "probe_sequence t k j \<noteq> ?p" if "j < m'" for j
    using that not_less_Least[of j "\<lambda>j. probe_sequence t k j = ?p"] by (auto simp: m'_def)
  have len: "?p < length (t_keys t)" "?p < length (t_values t)"
    using assms(1) by (auto intro: wf_probe_lt)
  have k: "t_keys ?t' ! ?p = Key k" "t_values ?t' ! ?p = v"
    using len by (simp_all add: ins_place_def)
  have "\<not> stops ?t' k j" if "j < m'" for j
  proof -
    have "t_keys ?t' ! probe_sequence t k j = t_keys t ! probe_sequence t k j"
      using ne[OF that] by (simp add: ins_place_def)
    moreover have "\<not> stops t k j" using assms(2) that le by auto
    ultimately show ?thesis by (simp add: stops_def)
  qed
  then have "found_at ?t' k m' v"
    using k eq by (simp add: found_at_def first_stop_def stops_def)
  then show ?thesis using le eq by blast
qed

lemma ins_post_found:
  assumes "ins_post t k v i fd t'" "well_formed t"
  shows "\<exists>n. found_at t' k n v"
proof -
  from assms(1) obtain n c m where
    nc: "first_stop t k n" and
    alt: "t_keys t ! probe_sequence t k n = Key k \<and> t' = ins_update t (probe_sequence t k n) v c
         \<or> t_keys t ! probe_sequence t k n = Empty \<and> m \<le> n \<and>
           t' = ins_place t k (probe_sequence t k m) v c"
    unfolding ins_post_def by blast
  from alt show ?thesis
  proof
    assume a: "t_keys t ! probe_sequence t k n = Key k \<and> t' = ins_update t (probe_sequence t k n) v c"
    have "probe_sequence t k n < length (t_values t)" using assms(2) by (rule wf_probe_lt)
    then have "found_at t' k n v"
      using a nc by (simp add: found_at_def ins_update_def)
    then show ?thesis ..
  next
    assume a: "t_keys t ! probe_sequence t k n = Empty \<and> m \<le> n \<and>
           t' = ins_place t k (probe_sequence t k m) v c"
    then have "\<forall>j<m. \<not> stops t k j" using nc by (auto simp: first_stop_def)
    from place_first_stop[OF assms(2) this, of v c] show ?thesis using a by auto
  qed
qed

lemma found_at_get: "found_at t k n v \<Longrightarrow> get t k = Some v"
  by (auto simp: found_at_def get_first_stop)

lemma found_at_remove:
  "found_at t k n v \<Longrightarrow>
   remove t k = Some (t\<lparr> t_keys := (t_keys t)[probe_sequence t k n := Deleted],
                          t_values := (t_values t)[probe_sequence t k n := None],
                          t_size := t_size t - 1 \<rparr>, True)"
  by (auto simp: found_at_def remove_first_stop remove_at_def)

lemma insert_key_found:
  assumes "insert_key t k v = Some t'" "well_formed t"
  shows "\<exists>n. found_at t' k n v"
proof -
  from assms(1) obtain t1 where
    t1: "(if t_load_factor_threshold t \<le> load_factor t
          then rehash t (t_capacity t * 2 + 1) else Some t) = Some t1"
    and l: "insert_loop t1 k v 0 None = Some t'"
    by (auto simp: insert_key_eq bind_eq_Some_conv)
  have "well_formed t1"
    using t1 assms(2) rehash_basic[of t "t_capacity t * 2 + 1" t1]
    by (auto simp: basic_rel_def split: if_splits)
  with insert_loop_post[OF l] show ?thesis by (rule ins_post_found)
qed

subsection \<open>What remove keeps\<close>

lemma remove_basic:
  assumes "remove t k = Some (t', b)" "well_formed t"
  shows "well_formed t' \<and> same_params t t' \<and> t_capacity t' = t_capacity t \<and>
         collisions t' = collisions t \<and> (size_ok t \<longrightarrow> size_ok t')"
proof -
  from remove_Some_first_stop[OF assms(1)] obtain n where n: "first_stop t k n" by blast
  let ?p = "probe_sequence t k n"
  have r: "(t', b) = remove_at t ?p" using remove_first_stop[OF n] assms(1) by simp
  have len: "?p < length (t_keys t)" using assms(2) by (rule wf_probe_lt)
  show ?thesis
  proof (cases "t_keys t ! ?p")
    case (Key k')
    then have t': "t' = t\<lparr> t_keys := (t_keys t)[?p := Deleted],
                          t_values := (t_values t)[?p := None],
                          t_size := t_size t - 1 \<rparr>"
      using r by (simp add: remove_at_def)
    have "occupied t' + 1 = occupied t"
      using length_filter_update[OF len, of is_key Deleted] Key
      by (simp add: occupied_def t')
    then show ?thesis using assms(2)
      by (auto simp: t' well_formed_def same_params_def size_ok_def)
  qed (use r assms(2) in \<open>auto simp: remove_at_def\<close>)
qed

subsection \<open>Linear probing reaches every slot\<close>

lemma h1_lt: "0 < t_capacity t \<Longrightarrow> h1 t k < t_capacity t"
  by (simp add: h1_def nat_less_iff)

lemma linear_covers:
  assumes "t_mode t = Linear" "idx < t_capacity t"
  shows "\<exists>i<t_capacity t. probe_sequence t k i = idx"
proof -
  let ?c = "t_capacity t"
  let ?i = "(idx + ?c - h1 t k) mod ?c"
  have h: "h1 t k < ?c" using assms(2) by (intro h1_lt) simp
  have "(h1 t k + ?i) mod ?c = (h1 t k + (idx + ?c - h1 t k)) mod ?c"
    by (simp add: mod_add_right_eq)
  also have "h1 t k + (idx + ?c - h1 t k) = idx + ?c" using h by simp
  finally have "probe_sequence t k ?i = idx"
    using assms by (simp add: probe_sequence_def)
  moreover have "?i < ?c" using assms(2) by simp
  ultimately show ?thesis by blast
qed

lemma linear_stops:
  assumes "t_mode t = Linear" "well_formed t" "Empty \<in> set (t_keys t)"
  shows "\<exists>n<t_capacity t. stops t k n"
proof -
  from assms(3) obtain idx where idx: "idx < length (t_keys t)" "t_keys t ! idx = Empty"
    by (auto simp: in_set_conv_nth)
  then have "idx < t_capacity t" using assms(2) by (simp add: well_formed_def)
  from linear_covers[OF assms(1) this, of k] show ?thesis using idx by (auto simp: stops_def)
qed

lemma linear_first_stop:
  assumes "t_mode t = Linear" "well_formed t" "Empty \<in> set (t_keys t)"
  shows "\<exists>n<t_capacity t. first_stop t k n"
  using linear_stops[OF assms, of k] ex_first_stop[of t k] by (meson le_less_trans)

lemma no_deleted_empty:
  assumes "well_formed t" "Deleted \<notin> set (t_keys t)" "occupied t < t_capacity t"
  shows "Empty \<in> set (t_keys t)"
proof (rule ccontr)
  assume "Empty \<notin> set (t_keys t)"
  then have "\<forall>s\<in>set (t_keys t). is_key s"
    using assms(2) by (metis is_key.elims(3))
  then have "filter is_key (t_keys t) = t_keys t" by (simp add: filter_id_conv)
  then show False using assms(1,3) by (simp add: occupied_def well_formed_def)
qed

lemma insert_loop_linear:
  assumes "t_mode t = Linear" "well_formed t" "Empty \<in> set (t_keys t)"
  shows "\<exists>t'. insert_loop t k v 0 None = Some t'"
  using linear_stops[OF assms, of k] insert_loop_terminates[of t k _ 0 v None] by blast

lemma length_old_items: "length ks = length vs \<Longrightarrow> length (old_items ks vs) = length (filter is_key ks)"
  by (induction ks vs rule: old_items.induct) auto

lemma occupied_le: "well_formed t \<Longrightarrow> occupied t \<le> t_capacity t"
  by (simp add: occupied_def well_formed_def) (metis length_filter_le)

lemma reinsert_total_aux:
  "\<forall>t items. occupied t + length items \<le> N \<longrightarrow> well_formed t \<longrightarrow> t_mode t = Linear \<longrightarrow>
      Deleted \<notin> set (t_keys t) \<longrightarrow> occupied t + length items < t_capacity t \<longrightarrow>
      (\<exists>t'. reinsert t (items :: (string \<times> 'v option) list) = Some t' \<and> total_post t (length items) t')"
proof (induction N rule: less_induct)
  case (less N)
  show ?case
  proof (intro allI)
    fix t :: "'v table" and items :: "(string \<times> 'v option) list"
    show "occupied t + length items \<le> N \<longrightarrow> well_formed t \<longrightarrow> t_mode t = Linear \<longrightarrow>
      Deleted \<notin> set (t_keys t) \<longrightarrow> occupied t + length items < t_capacity t \<longrightarrow>
      (\<exists>t'. reinsert t items = Some t' \<and> total_post t (length items) t')"
    proof (induction items arbitrary: t)
      case Nil
      show ?case by (auto simp: reinsert_Nil total_post_def basic_rel_refl)
    next
      case (Cons kv rest)
      obtain k v where kv: "kv = (k, v)" by (cases kv)
      show ?case
      proof (intro impI)
        assume N: "occupied t + length (kv # rest) \<le> N" and well_formed: "well_formed t"
          and lin: "t_mode t = Linear" and nd: "Deleted \<notin> set (t_keys t)"
          and cap: "occupied t + length (kv # rest) < t_capacity t"
        \<comment> \<open>the table that the walk of this insertion starts from\<close>
        have "\<exists>t1. (if t_load_factor_threshold t \<le> load_factor t
                 then rehash t (t_capacity t * 2 + 1) else Some t) = Some t1 \<and>
               total_post t 0 t1"
        proof (cases "t_load_factor_threshold t \<le> load_factor t")
          case True
          let ?r = "reset t (t_capacity t * 2 + 1)"
          let ?items = "old_items (t_keys t) (t_values t)"
          have len: "length ?items = occupied t"
            using well_formed by (simp add: length_old_items occupied_def well_formed_def)
          have "occupied t < N" using N by simp
          moreover have "occupied ?r + length ?items < t_capacity ?r"
            using len occupied_le[OF well_formed] by (simp add: max_def)
          ultimately obtain t1 where
            t1: "reinsert ?r ?items = Some t1" "total_post ?r (length ?items) t1"
            using less.IH[of "occupied t", rule_format, of ?r ?items] len lin by auto
          have "total_post t 0 t1"
            using t1(2) len
            by (auto simp: total_post_def basic_rel_def size_ok_def same_params_def)
          then show ?thesis using True t1(1) by (simp add: rehash_eq)
        next
          case False
          then show ?thesis using well_formed nd by (simp add: total_post_def basic_rel_refl)
        qed
        then obtain t1 where t1: "(if t_load_factor_threshold t \<le> load_factor t
                 then rehash t (t_capacity t * 2 + 1) else Some t) = Some t1"
          and p1: "total_post t 0 t1" by blast
        have wf1: "well_formed t1" and lin1: "t_mode t1 = Linear" and nd1: "Deleted \<notin> set (t_keys t1)"
          and occ1: "occupied t1 \<le> occupied t" and cap1: "t_capacity t \<le> t_capacity t1"
          using p1 lin by (auto simp: total_post_def basic_rel_def same_params_def)
        have "occupied t1 < t_capacity t1" using occ1 cap1 cap by simp
        from no_deleted_empty[OF wf1 nd1 this] have "Empty \<in> set (t_keys t1)" .
        from insert_loop_linear[OF lin1 wf1 this, of k v]
        obtain t2 where t2: "insert_loop t1 k v 0 None = Some t2" by blast
        have b2: "basic_rel t1 t2" using t2 wf1 by (rule insert_loop_basic)
        have p2: "Deleted \<notin> set (t_keys t2)" "occupied t2 \<le> Suc (occupied t1)"
          using ins_post_basic[OF insert_loop_post[OF t2] wf1] nd1 by auto
        have ins: "insert_key t k v = Some t2" using t1 t2 by (simp add: insert_key_eq)
        have wf2: "well_formed t2" and lin2: "t_mode t2 = Linear" and cap2: "t_capacity t1 \<le> t_capacity t2"
          using b2 lin1 by (auto simp: basic_rel_def same_params_def)
        have "\<exists>t'. reinsert t2 rest = Some t' \<and> total_post t2 (length rest) t'"
          using Cons.IH[of t2] N cap wf2 lin2 p2 occ1 cap1 cap2 by auto
        then obtain t' where t': "reinsert t2 rest = Some t'" "total_post t2 (length rest) t'"
          by blast
        have "basic_rel t t'"
          using p1 b2 t'(2) by (auto simp: total_post_def intro: basic_rel_trans)
        then have "total_post t (length (kv # rest)) t'"
          using t'(2) p2 occ1 by (auto simp: total_post_def)
        then show "\<exists>t'. reinsert t (kv # rest) = Some t' \<and> total_post t (length (kv # rest)) t'"
          using ins t'(1) by (simp add: kv reinsert_Cons)
      qed
    qed
  qed
qed

lemma reinsert_total:
  assumes "well_formed t" "t_mode t = Linear" "Deleted \<notin> set (t_keys t)"
    "occupied t + length items < t_capacity t"
  shows "\<exists>t'. reinsert t items = Some t' \<and> total_post t (length items) t'"
  using reinsert_total_aux[of "occupied t + length items"] assms by blast

lemma rehash_total:
  assumes "well_formed t" "t_mode t = Linear" "occupied t < max 3 n"
  shows "\<exists>t'. rehash t n = Some t' \<and> total_post (reset t n) (occupied t) t'"
proof -
  have len: "length (old_items (t_keys t) (t_values t)) = occupied t"
    using assms(1) by (simp add: length_old_items occupied_def well_formed_def)
  show ?thesis
    using reinsert_total[of "reset t n" "old_items (t_keys t) (t_values t)"] assms len
    by (simp add: rehash_eq)
qed

lemma insert_key_total:
  assumes "well_formed t" "t_mode t = Linear"
    "t_load_factor_threshold t \<le> load_factor t \<or> Empty \<in> set (t_keys t)"
  shows "\<exists>t'. insert_key t k v = Some t'"
proof (cases "t_load_factor_threshold t \<le> load_factor t")
  case True
  have "occupied t < max 3 (t_capacity t * 2 + 1)"
    using occupied_le[OF assms(1)] by (simp add: max_def)
  from rehash_total[OF assms(1,2) this] obtain t1 where
    t1: "rehash t (t_capacity t * 2 + 1) = Some t1"
    "total_post (reset t (t_capacity t * 2 + 1)) (occupied t) t1" by blast
  then have wf1: "well_formed t1" and lin1: "t_mode t1 = Linear" and nd1: "Deleted \<notin> set (t_keys t1)"
    and "occupied t1 \<le> occupied t" "t_capacity t * 2 + 1 \<le> t_capacity t1"
    using assms(2) by (auto simp: total_post_def basic_rel_def same_params_def)
  then have "occupied t1 < t_capacity t1" using occupied_le[OF assms(1)] by simp
  from no_deleted_empty[OF wf1 nd1 this] have "Empty \<in> set (t_keys t1)" .
  from insert_loop_linear[OF lin1 wf1 this, of k v] show ?thesis
    using True t1(1) by (simp add: insert_key_eq)
next
  case False
  then show ?thesis
    using insert_loop_linear[OF assms(2,1), of k v] assms(3) by (simp add: insert_key_eq)
qed

subsection \<open>Consequences of the invariant\<close>

lemma old_items_zip: "(k, v) \<in> set (old_items ks vs) \<longleftrightarrow> (Key k, v) \<in> set (zip ks vs)"
  by (induction ks vs rule: old_items.induct) auto

lemma entries_iff:
  "well_formed t \<Longrightarrow> (k, v) \<in> entries t \<longleftrightarrow> (\<exists>idx. key_at t k idx \<and> t_values t ! idx = v)"
  unfolding entries_def old_items_zip key_at_def well_formed_def
  by (simp add: set_zip) (metis (no_types))

lemma inv_found:
  assumes "table_inv t" "key_at t k idx"
  shows "\<exists>n. found_at t k n (t_values t ! idx) \<and> probe_sequence t k n = idx"
proof -
  from assms obtain n where n: "probe_sequence t k n = idx"
    "\<forall>j<n. t_keys t ! probe_sequence t k j \<noteq> Empty"
    unfolding table_inv_def reachable_keys_def by blast
  have "stops t k n" using n(1) assms(2) by (simp add: stops_def key_at_def)
  from ex_first_stop[OF this] obtain m where m: "m \<le> n" "first_stop t k m" by blast
  have "t_keys t ! probe_sequence t k m = Key k"
  proof (cases "m = n")
    case True
    then show ?thesis using n(1) assms(2) by (simp add: key_at_def)
  next
    case False
    then have "t_keys t ! probe_sequence t k m \<noteq> Empty" using m(1) n(2) by simp
    then show ?thesis using m(2) by (simp add: first_stop_def stops_def)
  qed
  moreover from this have "key_at t k (probe_sequence t k m)"
    using assms(1) by (simp add: key_at_def table_inv_def wf_probe_lt)
  then have "probe_sequence t k m = idx"
    using assms unfolding table_inv_def distinct_keys_def by blast
  ultimately show ?thesis using m(2) by (auto simp: found_at_def)
qed

lemma inv_absent:
  assumes "table_inv t" "first_stop t k n" "t_keys t ! probe_sequence t k n = Empty"
  shows "\<not> key_at t k idx"
proof
  assume "key_at t k idx"
  from inv_found[OF assms(1) this] obtain m where "first_stop t k m"
    "t_keys t ! probe_sequence t k m = Key k" by (auto simp: found_at_def)
  moreover have "m = n"
    using \<open>first_stop t k m\<close> assms(2) unfolding first_stop_def by (meson linorder_neqE_nat)
  ultimately show False using assms(3) by simp
qed

lemma inv_unique:
  "table_inv t \<Longrightarrow> (k, v) \<in> entries t \<Longrightarrow> (k, v') \<in> entries t \<Longrightarrow> v = v'"
  by (auto simp: entries_iff table_inv_def distinct_keys_def)

lemma inv_entry_found:
  "table_inv t \<Longrightarrow> (k, v) \<in> entries t \<Longrightarrow> \<exists>n. found_at t k n v"
  using inv_found[of t k] by (auto simp: entries_iff table_inv_def)

lemma inv_get_entry: "table_inv t \<Longrightarrow> (k, v) \<in> entries t \<Longrightarrow> get t k = Some v"
  using inv_entry_found found_at_get by blast

lemma inv_get_result:
  assumes "table_inv t" "get t k = Some r"
  shows "((k, r) \<in> entries t) \<or> (k \<notin> fst ` entries t \<and> r = None)"
proof -
  from get_Some_first_stop[OF assms(2)] obtain n where n: "first_stop t k n" by blast
  let ?p = "probe_sequence t k n"
  have well_formed: "well_formed t" using assms(1) by (simp add: table_inv_def)
  have p: "?p < length (t_keys t)" using well_formed by (rule wf_probe_lt)
  from n have "t_keys t ! ?p = Empty \<or> t_keys t ! ?p = Key k"
    by (simp add: first_stop_def stops_def)
  then show ?thesis
  proof
    assume e: "t_keys t ! ?p = Empty"
    then have "r = None" using get_first_stop[OF n] assms(2) by simp
    moreover have "k \<notin> fst ` entries t"
      using inv_absent[OF assms(1) n e] by (auto simp: entries_iff[OF well_formed])
    ultimately show ?thesis by simp
  next
    assume e: "t_keys t ! ?p = Key k"
    then have "r = t_values t ! ?p" using get_first_stop[OF n] assms(2) by simp
    then have "(k, r) \<in> entries t" using e p by (auto simp: entries_iff[OF well_formed] key_at_def)
    then show ?thesis ..
  qed
qed

subsection \<open>The operations keep the invariant\<close>

lemma key_at_place:
  "p < length (t_keys t) \<Longrightarrow>
   key_at (ins_place t k p v c) k' i \<longleftrightarrow> (if i = p then k' = k else key_at t k' i)"
  by (auto simp: key_at_def ins_place_def)

lemma values_place:
  "p < length (t_values t) \<Longrightarrow>
   t_values (ins_place t k p v c) ! i = (if i = p then v else t_values t ! i)"
  by (simp add: ins_place_def)

lemma keys_place_not_empty:
  "p < length (t_keys t) \<Longrightarrow> t_keys t ! i \<noteq> Empty \<Longrightarrow> t_keys (ins_place t k p v c) ! i \<noteq> Empty"
  by (cases "i = p") (simp_all add: ins_place_def)

lemma key_at_update [simp]: "key_at (ins_update t p v c) = key_at t"
  by (intro ext) (simp add: key_at_def ins_update_def)

lemma ins_update_inv:
  assumes "table_inv t" "key_at t k p"
  shows "table_inv (ins_update t p v c)" "entries (ins_update t p v c) = upd k v (entries t)"
proof -
  let ?t' = "ins_update t p v c"
  have well_formed: "well_formed t" using assms(1) by (simp add: table_inv_def)
  have p: "p < length (t_values t)" using assms(2) well_formed by (simp add: key_at_def well_formed_def)
  have keys: "t_keys ?t' = t_keys t" by (simp add: ins_update_def)
  have "distinct_keys ?t'"
    using assms(1) by (simp add: table_inv_def distinct_keys_def)
  moreover have "reachable_keys ?t'"
    using assms(1) by (simp add: table_inv_def reachable_keys_def keys)
  ultimately show "table_inv ?t'"
    using well_formed by (simp add: table_inv_def)
  have uniq: "i = p" if "key_at t k i" for i
    using assms that unfolding table_inv_def distinct_keys_def by blast
  have vals: "t_values ?t' ! i = (if i = p then v else t_values t ! i)" for i
    using p by (simp add: ins_update_def)
  show "entries ?t' = upd k v (entries t)"
  proof (intro set_eqI)
    fix x :: "string \<times> 'a option"
    obtain k' v' where x: "x = (k', v')" by (cases x)
    have "(k', v') \<in> entries ?t' \<longleftrightarrow> (\<exists>i. key_at t k' i \<and> t_values ?t' ! i = v')"
      using well_formed by (simp add: entries_iff)
    also have "\<dots> \<longleftrightarrow> (k', v') \<in> upd k v (entries t)"
    proof (cases "k' = k")
      case True
      have "key_at t k i \<and> t_values ?t' ! i = v' \<longleftrightarrow> i = p \<and> v = v'" for i
        using uniq[of i] assms(2) by (cases "i = p") (auto simp: vals)
      then have "(\<exists>i. key_at t k i \<and> t_values ?t' ! i = v') \<longleftrightarrow> v = v'" by simp
      then show ?thesis using True by (simp add: upd_def) blast
    next
      case False
      have "key_at t k' i \<and> t_values ?t' ! i = v' \<longleftrightarrow> key_at t k' i \<and> t_values t ! i = v'" for i
        using False assms(2) by (cases "i = p") (simp_all add: vals key_at_def)
      then have "(\<exists>i. key_at t k' i \<and> t_values ?t' ! i = v') \<longleftrightarrow>
                 (\<exists>i. key_at t k' i \<and> t_values t ! i = v')" by simp
      then show ?thesis using False by (simp add: upd_def entries_iff[OF well_formed])
    qed
    finally show "x \<in> entries ?t' \<longleftrightarrow> x \<in> upd k v (entries t)" by (simp add: x)
  qed
qed

lemma ins_place_inv:
  assumes "table_inv t" "first_stop t k n" "t_keys t ! probe_sequence t k n = Empty" "m \<le> n"
    "m = n \<or> t_keys t ! probe_sequence t k m = Deleted"
  shows "table_inv (ins_place t k (probe_sequence t k m) v c)"
    "entries (ins_place t k (probe_sequence t k m) v c) = upd k v (entries t)"
proof -
  let ?p = "probe_sequence t k m"
  let ?t' = "ins_place t k ?p v c"
  have well_formed: "well_formed t" using assms(1) by (simp add: table_inv_def)
  have p: "?p < length (t_keys t)" "?p < length (t_values t)"
    using well_formed by (auto intro: wf_probe_lt)
  have absent: "\<not> key_at t k i" for i
    using inv_absent[OF assms(1-3)] .
  have free: "\<not> key_at t k' ?p" for k'
    using assms(3,5) by (auto simp: key_at_def)
  have ka: "key_at ?t' k' i \<longleftrightarrow> (if i = ?p then k' = k else key_at t k' i)" for k' i
    using p(1) by (rule key_at_place)
  have dk: "distinct_keys ?t'"
    unfolding distinct_keys_def
  proof (intro allI impI)
    fix i j k'
    assume a: "key_at ?t' k' i" "key_at ?t' k' j"
    show "i = j"
    proof (cases "i = ?p \<or> j = ?p")
      case True
      then show ?thesis using a absent[of i] absent[of j] by (auto simp: ka split: if_splits)
    next
      case False
      then have "key_at t k' i" "key_at t k' j" using a by (simp_all add: ka)
      then show ?thesis using assms(1) unfolding table_inv_def distinct_keys_def by blast
    qed
  qed
  have rk: "reachable_keys ?t'"
    unfolding reachable_keys_def
  proof (intro allI impI)
    fix idx k'
    assume a: "key_at ?t' k' idx"
    show "\<exists>n. probe_sequence ?t' k' n = idx \<and> (\<forall>j<n. t_keys ?t' ! probe_sequence ?t' k' j \<noteq> Empty)"
    proof (cases "idx = ?p")
      case True
      then have "k' = k" using a by (simp add: ka)
      have "\<forall>j<m. t_keys t ! probe_sequence t k j \<noteq> Empty"
        using assms(2,4) by (auto simp: first_stop_def stops_def)
      then have "\<forall>j<m. t_keys ?t' ! probe_sequence ?t' k j \<noteq> Empty"
        using keys_place_not_empty[OF p(1)] by simp
      then show ?thesis using True \<open>k' = k\<close> by (intro exI[of _ m]) simp
    next
      case False
      then have "key_at t k' idx" using a by (simp add: ka)
      then obtain n' where n': "probe_sequence t k' n' = idx"
        "\<forall>j<n'. t_keys t ! probe_sequence t k' j \<noteq> Empty"
        using assms(1) unfolding table_inv_def reachable_keys_def by blast
      then have "\<forall>j<n'. t_keys ?t' ! probe_sequence ?t' k' j \<noteq> Empty"
        using keys_place_not_empty[OF p(1)] by simp
      then show ?thesis using n'(1) by (intro exI[of _ n']) simp
    qed
  qed
  show "table_inv ?t'" using well_formed dk rk by (simp add: table_inv_def)
  show "entries ?t' = upd k v (entries t)"
  proof (intro set_eqI)
    fix x :: "string \<times> 'a option"
    obtain k' v' where x: "x = (k', v')" by (cases x)
    have "(k', v') \<in> entries ?t' \<longleftrightarrow> (\<exists>i. key_at ?t' k' i \<and> t_values ?t' ! i = v')"
      using well_formed by (simp add: entries_iff)
    also have "\<dots> \<longleftrightarrow> (k', v') \<in> upd k v (entries t)"
    proof (cases "k' = k")
      case True
      then show ?thesis
        using absent by (auto simp: upd_def ka values_place[OF p(2)] split: if_splits)
    next
      case False
      have "key_at ?t' k' i \<and> t_values ?t' ! i = v' \<longleftrightarrow>
            key_at t k' i \<and> t_values t ! i = v'" for i
        using False free[of k'] by (cases "i = ?p") (simp_all add: ka values_place[OF p(2)])
      then have "(\<exists>i. key_at ?t' k' i \<and> t_values ?t' ! i = v') \<longleftrightarrow>
            (\<exists>i. key_at t k' i \<and> t_values t ! i = v')"
        by simp
      then show ?thesis
        using False by (simp add: upd_def entries_iff[OF well_formed])
    qed
    finally show "x \<in> entries ?t' \<longleftrightarrow> x \<in> upd k v (entries t)" by (simp add: x)
  qed
qed

lemma ins_post_inv:
  assumes "ins_post t k v i fd t'" "table_inv t"
  shows "table_inv t' \<and> entries t' = upd k v (entries t)"
proof -
  have well_formed: "well_formed t" using assms(2) by (simp add: table_inv_def)
  from assms(1) obtain n c m where
    nc: "first_stop t k n" and
    alt: "t_keys t ! probe_sequence t k n = Key k \<and> t' = ins_update t (probe_sequence t k n) v c
         \<or> t_keys t ! probe_sequence t k n = Empty \<and> m \<le> n \<and>
           (m = n \<or> t_keys t ! probe_sequence t k m = Deleted) \<and>
           t' = ins_place t k (probe_sequence t k m) v c"
    unfolding ins_post_def by blast
  from alt show ?thesis
  proof
    assume a: "t_keys t ! probe_sequence t k n = Key k \<and> t' = ins_update t (probe_sequence t k n) v c"
    then have "key_at t k (probe_sequence t k n)"
      using well_formed by (simp add: key_at_def wf_probe_lt)
    from ins_update_inv[OF assms(2) this] show ?thesis using a by simp
  next
    assume a: "t_keys t ! probe_sequence t k n = Empty \<and> m \<le> n \<and>
           (m = n \<or> t_keys t ! probe_sequence t k m = Deleted) \<and>
           t' = ins_place t k (probe_sequence t k m) v c"
    then show ?thesis using ins_place_inv[OF assms(2) nc, of m v c] by simp
  qed
qed

lemma insert_loop_inv:
  "insert_loop t k v 0 None = Some t' \<Longrightarrow> table_inv t \<Longrightarrow> table_inv t' \<and> entries t' = upd k v (entries t)"
  using ins_post_inv[OF insert_loop_post] by blast

lemma remove_inv:
  assumes "remove t k = Some (t', b)" "table_inv t"
  shows "table_inv t' \<and> entries t' = del k (entries t) \<and> b = (k \<in> fst ` entries t)"
proof -
  have well_formed: "well_formed t" using assms(2) by (simp add: table_inv_def)
  from remove_Some_first_stop[OF assms(1)] obtain n where n: "first_stop t k n" by blast
  let ?p = "probe_sequence t k n"
  have r: "(t', b) = remove_at t ?p" using remove_first_stop[OF n] assms(1) by simp
  have len: "?p < length (t_keys t)" "?p < length (t_values t)"
    using well_formed by (auto intro: wf_probe_lt)
  from n have "t_keys t ! ?p = Empty \<or> t_keys t ! ?p = Key k"
    by (simp add: first_stop_def stops_def)
  then show ?thesis
  proof
    assume e: "t_keys t ! ?p = Empty"
    then have "t' = t" "b = False" using r by (simp_all add: remove_at_def)
    moreover have "k \<notin> fst ` entries t"
      using inv_absent[OF assms(2) n e] by (auto simp: entries_iff[OF well_formed])
    moreover from this have "del k (entries t) = entries t"
      by (force simp: del_def)
    ultimately show ?thesis using assms(2) by simp
  next
    assume e: "t_keys t ! ?p = Key k"
    then have t': "t' = t\<lparr> t_keys := (t_keys t)[?p := Deleted],
                          t_values := (t_values t)[?p := None],
                          t_size := t_size t - 1 \<rparr>" and b: "b = True"
      using r by (simp_all add: remove_at_def)
    have kp: "key_at t k ?p" using e len by (simp add: key_at_def)
    have uniq: "i = ?p" if "key_at t k i" for i
      using assms(2) kp that unfolding table_inv_def distinct_keys_def by blast
    have ka: "key_at t' k' i \<longleftrightarrow> i \<noteq> ?p \<and> key_at t k' i" for k' i
      using len by (cases "i = ?p") (simp_all add: key_at_def t')
    have vals: "i \<noteq> ?p \<Longrightarrow> t_values t' ! i = t_values t ! i" for i
      by (simp add: t')
    have probe: "probe_sequence t' = probe_sequence t"
      by (simp add: t')
    have well_formed': "well_formed t'" using well_formed by (simp add: well_formed_def t')
    have dk: "distinct_keys t'"
      using assms(2) unfolding table_inv_def distinct_keys_def ka by blast
    have ne: "t_keys t ! i \<noteq> Empty \<Longrightarrow> t_keys t' ! i \<noteq> Empty" for i
      using len by (cases "i = ?p") (simp_all add: t')
    have rk: "reachable_keys t'"
      unfolding reachable_keys_def
    proof (intro allI impI)
      fix idx k'
      assume "key_at t' k' idx"
      then have "key_at t k' idx" by (simp add: ka)
      then obtain n' where n': "probe_sequence t k' n' = idx"
        "\<forall>j<n'. t_keys t ! probe_sequence t k' j \<noteq> Empty"
        using assms(2) unfolding table_inv_def reachable_keys_def by blast
      then have "\<forall>j<n'. t_keys t' ! probe_sequence t' k' j \<noteq> Empty"
        using ne by (simp add: probe)
      then show "\<exists>n. probe_sequence t' k' n = idx \<and> (\<forall>j<n. t_keys t' ! probe_sequence t' k' j \<noteq> Empty)"
        using n'(1) by (intro exI[of _ n']) (simp add: probe)
    qed
    have ent: "entries t' = del k (entries t)"
    proof (intro set_eqI)
      fix x :: "string \<times> 'a option"
      obtain k' v' where x: "x = (k', v')" by (cases x)
      have "(k', v') \<in> entries t' \<longleftrightarrow> (\<exists>i. key_at t' k' i \<and> t_values t' ! i = v')"
        using well_formed' by (simp add: entries_iff)
      also have "\<dots> \<longleftrightarrow> (k', v') \<in> del k (entries t)"
      proof (cases "k' = k")
        case True
        have "\<not> key_at t' k i" for i using uniq[of i] by (auto simp: ka)
        then show ?thesis using True by (simp add: del_def)
      next
        case False
        have "key_at t' k' i \<and> t_values t' ! i = v' \<longleftrightarrow> key_at t k' i \<and> t_values t ! i = v'" for i
        proof (cases "i = ?p")
          case True
          have "\<not> key_at t k' ?p" using False e by (simp add: key_at_def)
          then show ?thesis using True by (simp add: ka)
        next
          case False
          then show ?thesis by (simp add: ka vals)
        qed
        then have "(\<exists>i. key_at t' k' i \<and> t_values t' ! i = v') \<longleftrightarrow>
                   (\<exists>i. key_at t k' i \<and> t_values t ! i = v')" by simp
        then show ?thesis using False by (simp add: del_def entries_iff[OF well_formed])
      qed
      finally show "x \<in> entries t' \<longleftrightarrow> x \<in> del k (entries t)" by (simp add: x)
    qed
    have "(k, t_values t ! ?p) \<in> entries t"
      using kp by (auto simp: entries_iff[OF well_formed])
    then have "k \<in> fst ` entries t" by force
    then show ?thesis using well_formed' dk rk ent b by (simp add: table_inv_def)
  qed
qed

lemma old_items_replicate [simp]: "old_items (replicate n Empty) (replicate n None) = []"
  by (induction n) simp_all

lemma key_at_reset [simp]: "\<not> key_at (reset t n) k i"
  by (simp add: key_at_def)

lemma inv_reset [simp]: "table_inv (reset t n)"
  by (simp add: table_inv_def distinct_keys_def reachable_keys_def)

lemma entries_reset [simp]: "entries (reset t n) = {}"
  by (simp add: entries_def)

lemma fold_upd_distinct:
  "distinct (map fst items) \<Longrightarrow> fst ` E \<inter> fst ` set items = {} \<Longrightarrow>
   fold (\<lambda>(k, v). upd k v) items E = E \<union> set items"
proof (induction items arbitrary: E)
  case Nil
  then show ?case by simp
next
  case (Cons kv items)
  obtain k v where kv: "kv = (k, v)" by (cases kv)
  have notin: "k \<notin> fst ` E" using Cons.prems(2) by (auto simp: kv)
  then have u: "upd k v E = insert (k, v) E" by (force simp: upd_def)
  have "fst ` insert (k, v) E \<inter> fst ` set items = {}"
    using Cons.prems by (auto simp: kv)
  then have "fold (\<lambda>(k, v). upd k v) items (insert (k, v) E) = insert (k, v) E \<union> set items"
    using Cons.IH[of "insert (k, v) E"] Cons.prems(1) by simp
  then show ?case by (simp add: kv u)
qed

lemma distinct_old_items:
  "length ks = length vs \<Longrightarrow>
   (\<forall>i j k. i < length ks \<longrightarrow> j < length ks \<longrightarrow> ks ! i = Key k \<longrightarrow> ks ! j = Key k \<longrightarrow> i = j) \<Longrightarrow>
   distinct (map fst (old_items ks vs))"
proof (induction ks vs rule: list_induct2)
  case Nil
  then show ?case by simp
next
  case (Cons s ks v vs)
  have tail: "\<forall>i j k. i < length ks \<longrightarrow> j < length ks \<longrightarrow> ks ! i = Key k \<longrightarrow> ks ! j = Key k \<longrightarrow> i = j"
  proof (intro allI impI)
    fix i j k
    assume "i < length ks" "j < length ks" "ks ! i = Key k" "ks ! j = Key k"
    then have "Suc i = Suc j" using Cons.prems[rule_format, of "Suc i" "Suc j" k] by simp
    then show "i = j" by simp
  qed
  then have IH: "distinct (map fst (old_items ks vs))" by (rule Cons.IH)
  show ?case
  proof (cases s)
    case (Key k)
    have "k \<notin> fst ` set (old_items ks vs)"
    proof
      assume "k \<in> fst ` set (old_items ks vs)"
      then obtain v' where "(Key k, v') \<in> set (zip ks vs)" by (auto simp: old_items_zip)
      then have "Key k \<in> set ks" by (rule set_zip_leftD)
      then obtain j where "j < length ks" "ks ! j = Key k" by (auto simp: in_set_conv_nth)
      then have "0 = Suc j" using Cons.prems[rule_format, of 0 "Suc j" k] Key by simp
      then show False by simp
    qed
    then show ?thesis using IH Key by simp
  qed (use IH in simp_all)
qed

lemma inv_distinct_old_items:
  assumes "well_formed t" "distinct_keys t"
  shows "distinct (map fst (old_items (t_keys t) (t_values t)))"
  using assms by (intro distinct_old_items) (auto simp: well_formed_def distinct_keys_def key_at_def)

lemma exec_inv: "exec c = Some t' \<Longrightarrow> exec_inv_post c t'"
proof (induction c t' rule: exec.raw_induct[rotated, consumes 1])
  case (1 f c t')
  show ?case
  proof (cases c)
    case (Insert t k v)
    show ?thesis
    proof (cases "table_inv t")
      case table_inv: True
      have "\<exists>t1. table_inv t1 \<and> entries t1 = entries t \<and> insert_loop t1 k v 0 None = Some t'"
      proof (cases "t_load_factor_threshold t \<le> load_factor t")
        case True
        then obtain t1 where t1: "f (Rehash t (t_capacity t * 2 + 1)) = Some t1"
          "insert_loop t1 k v 0 None = Some t'"
          using 1(2) Insert by (auto simp: bind_eq_Some_conv)
        have d: "distinct (map fst (old_items (t_keys t) (t_values t)))"
          using table_inv by (intro inv_distinct_old_items) (simp_all add: table_inv_def)
        have "entries t1 = fold (\<lambda>(k, v). upd k v) (old_items (t_keys t) (t_values t)) {}"
          and "table_inv t1"
          using 1(1)[OF t1(1)] by (simp_all add: exec_inv_post_def)
        then have "entries t1 = entries t"
          using fold_upd_distinct[OF d, of "{}"] by (simp add: entries_def)
        then show ?thesis using \<open>table_inv t1\<close> t1(2) by blast
      next
        case False
        then have "insert_loop t k v 0 None = Some t'" using 1(2) Insert by simp
        then show ?thesis using table_inv by blast
      qed
      then obtain t1 where "table_inv t1" "entries t1 = entries t" "insert_loop t1 k v 0 None = Some t'"
        by blast
      then show ?thesis
        using insert_loop_inv[of t1 k v t'] Insert by (simp add: exec_inv_post_def)
    next
      case False
      then show ?thesis using Insert by (simp add: exec_inv_post_def)
    qed
  next
    case (Rehash t n)
    then have "f (Reinsert (reset t n) (old_items (t_keys t) (t_values t))) = Some t'"
      using 1(2) by simp
    from 1(1)[OF this] show ?thesis using Rehash by (simp add: exec_inv_post_def)
  next
    case (Reinsert t items)
    show ?thesis
    proof (cases items)
      case Nil
      then show ?thesis using 1(2) Reinsert by (auto simp: exec_inv_post_def)
    next
      case (Cons kv rest)
      obtain k v where kv: "kv = (k, v)" by (cases kv)
      then obtain t1 where t1: "f (Insert t k v) = Some t1" "f (Reinsert t1 rest) = Some t'"
        using 1(2) Reinsert Cons by (auto simp: bind_eq_Some_conv)
      show ?thesis
      proof (cases "table_inv t")
        case True
        then have a: "table_inv t1" "entries t1 = upd k v (entries t)"
          using 1(1)[OF t1(1)] by (simp_all add: exec_inv_post_def)
        then have "table_inv t'" "entries t' = fold (\<lambda>(k, v). upd k v) rest (entries t1)"
          using 1(1)[OF t1(2)] by (simp_all add: exec_inv_post_def)
        then show ?thesis using Reinsert Cons kv a by (simp add: exec_inv_post_def)
      next
        case False
        then show ?thesis using Reinsert by (simp add: exec_inv_post_def)
      qed
    qed
  qed
qed

lemma insert_key_inv:
  "insert_key t k v = Some t' \<Longrightarrow> table_inv t \<Longrightarrow> table_inv t' \<and> entries t' = upd k v (entries t)"
  using exec_inv[of "Insert t k v" t'] by (simp add: insert_key_def exec_inv_post_def)

lemma rehash_inv:
  assumes "rehash t n = Some t'" "well_formed t" "distinct_keys t"
  shows "table_inv t' \<and> entries t' = entries t"
proof -
  have d: "distinct (map fst (old_items (t_keys t) (t_values t)))"
    using assms(2,3) by (rule inv_distinct_old_items)
  show ?thesis
    using exec_inv[of "Rehash t n" t'] assms(1) fold_upd_distinct[OF d, of "{}"]
    by (simp add: rehash_def exec_inv_post_def entries_def)
qed

lemma wf_new_table [simp]: "well_formed (new_table h c hf shf m thr)"
  by (auto simp: well_formed_def new_table_def max_def)

lemma key_at_new_table [simp]: "\<not> key_at (new_table h c hf shf m thr) k i"
  by (simp add: key_at_def new_table_def)

lemma inv_new_table [simp]: "table_inv (new_table h c hf shf m thr)"
  by (simp add: table_inv_def distinct_keys_def reachable_keys_def)

lemma entries_new_table [simp]: "entries (new_table h c hf shf m thr) = {}"
  by (simp add: entries_def new_table_def)

lemma size_ok_new_table [simp]: "size_ok (new_table h c hf shf m thr)"
  by (simp add: size_ok_def occupied_def new_table_def filter_empty_conv)

subsection \<open>Walks that never end\<close>

lemma no_stop:
  assumes "well_formed t" "Empty \<notin> set (t_keys t)" "Key k \<notin> set (t_keys t)"
  shows "\<not> stops t k n"
proof -
  have "t_keys t ! probe_sequence t k n \<in> set (t_keys t)"
    using assms(1) by (intro nth_mem wf_probe_lt)
  then show ?thesis using assms(2,3) by (auto simp: stops_def)
qed

lemma get_diverges: "\<forall>n. \<not> stops t k n \<Longrightarrow> get t k = None"
  by (simp add: get_None_iff)

lemma remove_diverges: "\<forall>n. \<not> stops t k n \<Longrightarrow> remove t k = None"
  using remove_loop_Some_stops[of t k 0] by (cases "remove t k") (auto simp: remove_def)

lemma insert_loop_diverges: "\<forall>n. \<not> stops t k n \<Longrightarrow> insert_loop t k v i fd = None"
  using insert_loop_Some_stops[of t k v i fd] by (cases "insert_loop t k v i fd") auto

lemma insert_key_diverges:
  "\<forall>n. \<not> stops t k n \<Longrightarrow> \<not> t_load_factor_threshold t \<le> load_factor t \<Longrightarrow>
   insert_key t k v = None"
  by (simp add: insert_key_eq insert_loop_diverges)

subsection \<open>Counting the occupied slots\<close>

lemma ins_post_occupied:
  assumes "ins_post t k v i fd t'" "well_formed t"
  shows "occupied t \<le> occupied t'"
proof -
  from assms(1) obtain n c m where
    alt: "t_keys t ! probe_sequence t k n = Key k \<and> t' = ins_update t (probe_sequence t k n) v c
         \<or> t_keys t ! probe_sequence t k n = Empty \<and> m \<le> n \<and>
           (m = n \<or> t_keys t ! probe_sequence t k m = Deleted) \<and>
           t' = ins_place t k (probe_sequence t k m) v c"
    unfolding ins_post_def by blast
  from alt show ?thesis
  proof
    assume "t_keys t ! probe_sequence t k n = Key k \<and> t' = ins_update t (probe_sequence t k n) v c"
    then show ?thesis by simp
  next
    assume a: "t_keys t ! probe_sequence t k n = Empty \<and> m \<le> n \<and>
           (m = n \<or> t_keys t ! probe_sequence t k m = Deleted) \<and>
           t' = ins_place t k (probe_sequence t k m) v c"
    then have nk: "\<not> is_key (t_keys t ! probe_sequence t k m)" by auto
    show ?thesis
      using a occupied_ins_place[OF wf_probe_lt(1)[OF assms(2)] nk] by simp
  qed
qed

lemma distinct_fst: "distinct (map fst xs) \<Longrightarrow> distinct xs"
  by (induction xs) auto

lemma occupied_card:
  assumes "table_inv t"
  shows "occupied t = card (entries t)"
proof -
  have well_formed: "well_formed t" and dk: "distinct_keys t" using assms by (simp_all add: table_inv_def)
  have "distinct (old_items (t_keys t) (t_values t))"
    using inv_distinct_old_items[OF well_formed dk] by (rule distinct_fst)
  then have "card (entries t) = length (old_items (t_keys t) (t_values t))"
    by (simp add: entries_def distinct_card)
  then show ?thesis using well_formed by (simp add: length_old_items occupied_def well_formed_def)
qed

subsection \<open>Reinsertion that never crosses the threshold keeps the capacity\<close>

lemma load_factor_size_ok: "size_ok t \<Longrightarrow> load_factor t = float_div (int (occupied t)) (int (t_capacity t))"
  by (simp add: load_factor_def size_ok_def)

lemma reinsert_capacity:
  "reinsert t kvs = Some t' \<Longrightarrow> well_formed t \<Longrightarrow> size_ok t \<Longrightarrow>
   (\<forall>s. occupied t \<le> s \<and> s < occupied t + length kvs \<longrightarrow>
      float_div (int s) (int (t_capacity t)) < t_load_factor_threshold t) \<Longrightarrow>
   t_capacity t' = t_capacity t"
proof (induction kvs arbitrary: t)
  case Nil
  then show ?case by (simp add: reinsert_Nil)
next
  case (Cons kv rest)
  obtain k v where kv: "kv = (k, v)" by (cases kv)
  from Cons.prems(1) obtain t1 where t1: "insert_key t k v = Some t1" "reinsert t1 rest = Some t'"
    by (auto simp: kv reinsert_Cons bind_eq_Some_conv)
  have "float_div (int (occupied t)) (int (t_capacity t)) < t_load_factor_threshold t"
    using Cons.prems(4) by simp
  then have "\<not> t_load_factor_threshold t \<le> load_factor t"
    using Cons.prems(3) by (simp add: load_factor_size_ok)
  then have l: "insert_loop t k v 0 None = Some t1" using t1(1) by (simp add: insert_key_eq)
  note b = ins_post_basic[OF insert_loop_post[OF l] Cons.prems(2)]
  have o: "occupied t \<le> occupied t1"
    using ins_post_occupied[OF insert_loop_post[OF l] Cons.prems(2)] .
  have "well_formed t1" "t_capacity t1 = t_capacity t" "occupied t1 \<le> Suc (occupied t)"
    "t_load_factor_threshold t1 = t_load_factor_threshold t"
    using b by (simp_all add: same_params_def)
  moreover have "size_ok t1"
    using insert_loop_basic[OF l Cons.prems(2)] Cons.prems(3) by (simp add: basic_rel_def)
  moreover have "\<forall>s. occupied t1 \<le> s \<and> s < occupied t1 + length rest \<longrightarrow>
      float_div (int s) (int (t_capacity t1)) < t_load_factor_threshold t1"
    using Cons.prems(4) o calculation(2,3,4) by auto
  ultimately show ?case using Cons.IH[OF t1(2)] by simp
qed

subsection \<open>Reachable states and runs\<close>

lemma reachable_inv: "reachable t \<Longrightarrow> table_inv t \<and> size_ok t"
proof (induction rule: reachable.induct)
  case (new py_hash capacity hash_func second_hash_func mode load_factor_threshold)
  show ?case by simp
next
  case (ins t k v t')
  then show ?case
    using insert_key_inv[of t k v t'] insert_key_basic[of t k v t']
    by (auto simp: basic_rel_def table_inv_def)
next
  case (rem t k t' b)
  then show ?case
    using remove_inv[of t k t' b] remove_basic[of t k t' b] by (auto simp: table_inv_def)
next
  case (reh t n t')
  then show ?case
    using rehash_inv[of t n t'] rehash_basic[of t n t']
    by (auto simp: basic_rel_def table_inv_def size_ok_def)
qed

lemma run_reachable: "run t ops = Some (t', rs) \<Longrightarrow> reachable t \<Longrightarrow> reachable t'"
proof (induction ops arbitrary: t rs)
  case Nil
  then show ?case by simp
next
  case (Cons op ops)
  show ?case
  proof (cases op)
    case (Insert_op k v)
    from Cons.prems(1) obtain u q where "insert_key t k v = Some u" "run u ops = Some (t', q)"
      by (auto simp: Insert_op bind_eq_Some_conv)
    then show ?thesis using Cons.IH[of u q] Cons.prems(2) reachable.ins by blast
  next
    case (Get_op k)
    from Cons.prems(1) obtain q where "run t ops = Some (t', q)"
      by (auto simp: Get_op bind_eq_Some_conv)
    then show ?thesis using Cons.IH[of t q] Cons.prems(2) by blast
  next
    case (Remove_op k)
    from Cons.prems(1) obtain u b q where "remove t k = Some (u, b)" "run u ops = Some (t', q)"
      by (auto simp: Remove_op bind_eq_Some_conv)
    then show ?thesis using Cons.IH[of u q] Cons.prems(2) reachable.rem by blast
  qed
qed

lemma run_agree:
  "run t1 ops = Some (t1', rs1) \<Longrightarrow> run t2 ops = Some (t2', rs2) \<Longrightarrow>
   table_inv t1 \<Longrightarrow> table_inv t2 \<Longrightarrow> entries t1 = entries t2 \<Longrightarrow>
   rs1 = rs2 \<and> entries t1' = entries t2' \<and> table_inv t1' \<and> table_inv t2'"
proof (induction ops arbitrary: t1 t2 rs1 rs2)
  case Nil
  then show ?case by simp
next
  case (Cons op ops)
  show ?case
  proof (cases op)
    case (Insert_op k v)
    from Cons.prems(1,2) obtain u1 u2 q1 q2 where
      u: "insert_key t1 k v = Some u1" "insert_key t2 k v = Some u2"
      and r: "run u1 ops = Some (t1', q1)" "run u2 ops = Some (t2', q2)"
      and q: "rs1 = Inserted # q1" "rs2 = Inserted # q2"
      by (auto simp: Insert_op bind_eq_Some_conv)
    have "table_inv u1" "table_inv u2" "entries u1 = entries u2"
      using insert_key_inv[OF u(1) Cons.prems(3)] insert_key_inv[OF u(2) Cons.prems(4)]
        Cons.prems(5) by simp_all
    from Cons.IH[OF r this] show ?thesis using q by simp
  next
    case (Get_op k)
    from Cons.prems(1,2) obtain g1 g2 q1 q2 where
      g: "get t1 k = Some g1" "get t2 k = Some g2"
      and r: "run t1 ops = Some (t1', q1)" "run t2 ops = Some (t2', q2)"
      and q: "rs1 = Got g1 # q1" "rs2 = Got g2 # q2"
      by (auto simp: Get_op bind_eq_Some_conv)
    have "g1 = g2"
      using inv_get_result[OF Cons.prems(3) g(1)] inv_get_result[OF Cons.prems(4) g(2)]
        Cons.prems(5) inv_unique[OF Cons.prems(4), of k g1 g2]
      by (metis fst_conv image_eqI)
    moreover from Cons.IH[OF r Cons.prems(3,4,5)]
    have "q1 = q2 \<and> entries t1' = entries t2' \<and> table_inv t1' \<and> table_inv t2'" .
    ultimately show ?thesis using q by simp
  next
    case (Remove_op k)
    from Cons.prems(1,2) obtain u1 u2 b1 b2 q1 q2 where
      u: "remove t1 k = Some (u1, b1)" "remove t2 k = Some (u2, b2)"
      and r: "run u1 ops = Some (t1', q1)" "run u2 ops = Some (t2', q2)"
      and q: "rs1 = Removed b1 # q1" "rs2 = Removed b2 # q2"
      by (auto simp: Remove_op bind_eq_Some_conv)
    have "table_inv u1" "table_inv u2" "entries u1 = entries u2" "b1 = b2"
      using remove_inv[OF u(1) Cons.prems(3)] remove_inv[OF u(2) Cons.prems(4)]
        Cons.prems(5) by simp_all
    from Cons.IH[OF r this(1,2,3)] show ?thesis using q \<open>b1 = b2\<close> by simp
  qed
qed

subsection \<open>The table of tombstones and the scenario table\<close>

lemma run_the:
  "\<not> Option.is_none (run t ops) \<Longrightarrow> run t ops = Some (fst (the (run t ops)), snd (the (run t ops)))"
  by (cases "run t ops") (simp_all add: Option.is_none_def)

lemma insert_key_the:
  "\<not> Option.is_none (insert_key t k v) \<Longrightarrow> insert_key t k v = Some (the (insert_key t k v))"
  by (cases "insert_key t k v") (simp_all add: Option.is_none_def)

lemma tombstone_run: "\<not> Option.is_none (run small_table tombstone_ops)"
  by code_simp

lemma tombstone_results:
  "map_option snd (run small_table tombstone_ops)
     = Some [Inserted, Removed True, Inserted, Removed True, Inserted, Removed True]"
  by code_simp

lemma tombstone_keys: "t_keys tombstone_table = [Deleted, Deleted, Deleted]"
  by code_simp

lemma tombstone_fields:
  "t_capacity tombstone_table = 3" "t_mode tombstone_table = Linear" "t_size tombstone_table = 0"
  "\<not> t_load_factor_threshold tombstone_table \<le> load_factor tombstone_table"
  by code_simp+

lemma tombstone_reachable: "reachable tombstone_table"
proof -
  have "reachable small_table" unfolding small_table_def by (rule reachable.new)
  with run_the[OF tombstone_run] show ?thesis
    unfolding tombstone_table_def by (rule run_reachable)
qed

lemma tombstone_no_stop: "\<not> stops tombstone_table k n"
proof (rule no_stop)
  show "well_formed tombstone_table" using reachable_inv[OF tombstone_reachable] by (simp add: table_inv_def)
qed (simp_all add: tombstone_keys)

lemma wf_scenario_table [simp]: "well_formed (scenario_table h)"
  by (simp add: scenario_table_def)

lemma reachable_scenario_table: "reachable (scenario_table h)"
  unfolding scenario_table_def by (rule reachable.new)

subsection \<open>Tables without tombstones\<close>

lemma insert_all_reinsert: "insert_all t kvs = reinsert t kvs"
proof (induction kvs arbitrary: t)
  case Nil
  show ?case by (simp add: reinsert_Nil)
next
  case (Cons kv kvs)
  obtain k v where kv: "kv = (k, v)" by (cases kv)
  show ?case unfolding kv by (simp add: reinsert_Cons Cons.IH cong: Option.bind_cong)
qed

lemma occupied_card_entries:
  assumes "well_formed t" "distinct_keys t"
  shows "occupied t = card (entries t)"
proof -
  have "distinct (old_items (t_keys t) (t_values t))"
    using inv_distinct_old_items[OF assms] by (rule distinct_fst)
  then have "card (entries t) = length (old_items (t_keys t) (t_values t))"
    by (simp add: entries_def distinct_card)
  then show ?thesis using assms(1) by (simp add: length_old_items occupied_def well_formed_def)
qed

lemma insert_loop_nodel:
  "insert_loop t k v 0 None = Some t' \<Longrightarrow> no_deleted t \<Longrightarrow> no_deleted t'"
  using ins_post_basic[OF insert_loop_post, of t k v t'] by (simp add: no_deleted_def)

lemma no_deleted_reset [simp]: "no_deleted (reset t n)"
  by (simp add: no_deleted_def)

lemma exec_nodel: "exec c = Some t' \<Longrightarrow> exec_nodel_post c t'"
proof (induction c t' rule: exec.raw_induct[rotated, consumes 1])
  case (1 f c t')
  show ?case
  proof (cases c)
    case (Insert t k v)
    have "no_deleted t'" if d: "no_deleted t"
    proof -
      have "\<exists>t1. no_deleted t1 \<and> insert_loop t1 k v 0 None = Some t'"
      proof (cases "t_load_factor_threshold t \<le> load_factor t")
        case True
        then obtain t1 where t1: "f (Rehash t (t_capacity t * 2 + 1)) = Some t1"
          "insert_loop t1 k v 0 None = Some t'"
          using 1(2) Insert by (auto simp: bind_eq_Some_conv)
        have "no_deleted t1" using 1(1)[OF t1(1)] by (simp add: exec_nodel_post_def)
        then show ?thesis using t1(2) by blast
      next
        case False
        then have "insert_loop t k v 0 None = Some t'" using 1(2) Insert by simp
        then show ?thesis using d by blast
      qed
      then show ?thesis using insert_loop_nodel by blast
    qed
    then show ?thesis using Insert by (simp add: exec_nodel_post_def)
  next
    case (Rehash t n)
    then have "f (Reinsert (reset t n) (old_items (t_keys t) (t_values t))) = Some t'"
      using 1(2) by simp
    from 1(1)[OF this] show ?thesis using Rehash by (simp add: exec_nodel_post_def)
  next
    case (Reinsert t items)
    show ?thesis
    proof (cases items)
      case Nil
      then show ?thesis using 1(2) Reinsert by (auto simp: exec_nodel_post_def)
    next
      case (Cons kv rest)
      obtain k v where kv: "kv = (k, v)" by (cases kv)
      then obtain t1 where t1: "f (Insert t k v) = Some t1" "f (Reinsert t1 rest) = Some t'"
        using 1(2) Reinsert Cons by (auto simp: bind_eq_Some_conv)
      show ?thesis
        using 1(1)[OF t1(1)] 1(1)[OF t1(2)] Reinsert by (simp add: exec_nodel_post_def)
    qed
  qed
qed

lemma rehash_nodel: "rehash t n = Some t' \<Longrightarrow> Deleted \<notin> set (t_keys t')"
  using exec_nodel[of "Rehash t n" t'] by (simp add: rehash_def exec_nodel_post_def no_deleted_def)

lemma run_append:
  "run t (ops @ ops') =
     Option.bind (run t ops) (\<lambda>(t1, rs).
       map_option (\<lambda>(t', rs'). (t', rs @ rs')) (run t1 ops'))"
proof (induction t ops rule: run.induct)
  case (1 t)
  show ?case by (simp add: option.map_ident case_prod_unfold)
next
  case (2 t k v ops)
  then show ?case
    by (cases "insert_key t k v")
       (auto simp: bind_eq_Some_conv option.map_comp comp_def case_prod_unfold
             split: Option.bind_splits intro!: option.map_cong)
next
  case (3 t k ops)
  then show ?case
    by (cases "get t k")
       (auto simp: option.map_comp comp_def case_prod_unfold split: Option.bind_splits)
next
  case (4 t k ops)
  then show ?case
    by (cases "remove t k")
       (auto simp: option.map_comp comp_def case_prod_unfold split: Option.bind_splits)
qed

subsection \<open>The load factor against the default threshold\<close>

lemma below_threshold_101:
  "\<forall>s<61. float_div (int s) 101 < default_load_factor_threshold"
proof -
  have "\<forall>s\<in>set [0..<61]. float_div (int s) 101 < default_load_factor_threshold"
    by code_simp
  then show ?thesis by simp
qed

lemma below_threshold_203:
  "\<forall>s<62. float_div (int s) 203 < default_load_factor_threshold"
proof -
  have "\<forall>s\<in>set [0..<62]. float_div (int s) 203 < default_load_factor_threshold"
    by code_simp
  then show ?thesis by simp
qed

lemma at_threshold_101: "default_load_factor_threshold \<le> float_div 61 101"
  by code_simp

subsection \<open>The first stop is among the first capacity probes\<close>

lemma probe_sequence_mod:
  "probe_sequence t k (n mod t_capacity t) = probe_sequence t k n"
proof (cases "t_mode t")
  case Linear
  then show ?thesis by (simp add: probe_sequence_def mod_add_right_eq)
next
  case Double
  have "(n mod t_capacity t * step t k) mod t_capacity t = (n * step t k) mod t_capacity t"
    by (simp add: mod_mult_left_eq)
  then have "(h1 t k + n mod t_capacity t * step t k) mod t_capacity t
      = (h1 t k + n * step t k) mod t_capacity t"
    by (metis mod_add_right_eq)
  then show ?thesis using Double by (simp add: probe_sequence_def)
qed

lemma first_stop_bounded:
  assumes "well_formed t" "stops t k m"
  shows "\<exists>n<t_capacity t. first_stop t k n"
proof -
  have "stops t k (m mod t_capacity t)"
    using assms(2) by (simp add: stops_def probe_sequence_mod)
  moreover have "m mod t_capacity t < t_capacity t" using assms(1) by (simp add: well_formed_def)
  ultimately show ?thesis using ex_first_stop[of t k "m mod t_capacity t"] by (meson le_less_trans)
qed

lemma linear_stops_key:
  assumes "t_mode t = Linear" "well_formed t" "Key k \<in> set (t_keys t)"
  shows "\<exists>n<t_capacity t. stops t k n"
proof -
  from assms(3) obtain idx where idx: "idx < length (t_keys t)" "t_keys t ! idx = Key k"
    by (auto simp: in_set_conv_nth)
  then have "idx < t_capacity t" using assms(2) by (simp add: well_formed_def)
  from linear_covers[OF assms(1) this, of k] show ?thesis using idx by (auto simp: stops_def)
qed

lemma insert_key_returns:
  assumes "well_formed t" "\<not> t_load_factor_threshold t \<le> load_factor t" "stops t k m"
  shows "\<exists>t'. insert_key t k v = Some t'"
  using assms(2) insert_loop_terminates[OF assms(3), of 0 v None] by (simp add: insert_key_eq)

lemma insert_key_total_linear:
  assumes "well_formed t" "t_mode t = Linear"
    "t_load_factor_threshold t \<le> load_factor t \<or> Empty \<in> set (t_keys t) \<or> Key k \<in> set (t_keys t)"
  shows "\<exists>t'. insert_key t k v = Some t'"
proof (cases "t_load_factor_threshold t \<le> load_factor t \<or> Empty \<in> set (t_keys t)")
  case True
  then show ?thesis using insert_key_total[OF assms(1,2)] by blast
next
  case False
  then have "Key k \<in> set (t_keys t)" using assms(3) by blast
  from linear_stops_key[OF assms(2,1) this] obtain m where "stops t k m" by blast
  then show ?thesis using insert_key_returns[OF assms(1)] False by blast
qed

subsection \<open>Where insert, get and remove return\<close>

lemma insert_then_get:
  assumes "well_formed t"
  shows "(insert_key t k v = Some t' \<longrightarrow> get t' k = Some v) \<and>
         (\<not> t_load_factor_threshold t \<le> load_factor t \<and>
          (t_keys t ! probe_sequence t k m = Empty \<or> t_keys t ! probe_sequence t k m = Key k)
            \<longrightarrow> (\<exists>t1. insert_key t k v = Some t1 \<and> get t1 k = Some v)) \<and>
         (t_mode t = Linear \<and>
          (Empty \<in> set (t_keys t) \<or> Key k \<in> set (t_keys t) \<or>
           t_load_factor_threshold t \<le> load_factor t)
            \<longrightarrow> (\<exists>t1. insert_key t k v = Some t1 \<and> get t1 k = Some v))"
proof -
  have g: "get u k = Some v" if "insert_key t k v = Some u" for u
    using insert_key_found[OF that assms] found_at_get by blast
  moreover have "\<exists>t1. insert_key t k v = Some t1 \<and> get t1 k = Some v"
    if "\<not> t_load_factor_threshold t \<le> load_factor t"
      "t_keys t ! probe_sequence t k m = Empty \<or> t_keys t ! probe_sequence t k m = Key k"
  proof -
    have "stops t k m" using that(2) by (simp add: stops_def)
    from insert_key_returns[OF assms that(1) this, of v] show ?thesis using g by blast
  qed
  moreover have "\<exists>t1. insert_key t k v = Some t1 \<and> get t1 k = Some v"
    if "t_mode t = Linear"
      "Empty \<in> set (t_keys t) \<or> Key k \<in> set (t_keys t) \<or>
       t_load_factor_threshold t \<le> load_factor t"
    using insert_key_total_linear[OF assms that(1), of k v] that(2) g by blast
  ultimately show ?thesis by blast
qed

lemma walks_end_at_first_stop:
  assumes "well_formed t"
  shows "(t_keys t ! probe_sequence t k m = Empty \<or> t_keys t ! probe_sequence t k m = Key k
            \<longrightarrow>
           (\<exists>n<t_capacity t. first_stop t k n \<and>
              get t k = Some (case t_keys t ! probe_sequence t k n of
                                Key x \<Rightarrow> t_values t ! probe_sequence t k n | _ \<Rightarrow> None) \<and>
              remove t k = Some (remove_at t (probe_sequence t k n))) \<and>
           (\<exists>t'. insert_loop t k v 0 None = Some t')) \<and>
         (t_mode t = Linear \<and> (Empty \<in> set (t_keys t) \<or> Key k \<in> set (t_keys t)) \<longrightarrow>
           (\<exists>n<t_capacity t. first_stop t k n) \<and> (\<exists>r. get t k = Some r) \<and>
           (\<exists>r. remove t k = Some r) \<and> (\<exists>t'. insert_key t k v = Some t'))"
proof -
  have walk: "(\<exists>n<t_capacity t. first_stop t k n \<and>
              get t k = Some (case t_keys t ! probe_sequence t k n of
                                Key x \<Rightarrow> t_values t ! probe_sequence t k n | _ \<Rightarrow> None) \<and>
              remove t k = Some (remove_at t (probe_sequence t k n))) \<and>
           (\<exists>t'. insert_loop t k v 0 None = Some t')"
    if s: "stops t k j" for j
  proof -
    from first_stop_bounded[OF assms s] obtain n where
      n: "n < t_capacity t" "first_stop t k n" by blast
    have "\<exists>t'. insert_loop t k v 0 None = Some t'"
      using insert_loop_terminates[OF s, of 0 v None] by simp
    then show ?thesis
      using n get_first_stop[OF n(2)] remove_first_stop[OF n(2)] by blast
  qed
  have "(\<exists>n<t_capacity t. first_stop t k n) \<and> (\<exists>r. get t k = Some r) \<and>
           (\<exists>r. remove t k = Some r) \<and> (\<exists>t'. insert_key t k v = Some t')"
    if l: "t_mode t = Linear" and e: "Empty \<in> set (t_keys t) \<or> Key k \<in> set (t_keys t)"
  proof -
    have "\<exists>j. stops t k j"
      using linear_stops[OF l assms, of k] linear_stops_key[OF l assms, of k] e by blast
    then obtain j where "stops t k j" ..
    from walk[OF this] insert_key_total_linear[OF assms l, of k v] e show ?thesis by blast
  qed
  then show ?thesis using walk by (simp add: stops_def)
qed

subsection \<open>The first probe and the default step\<close>

lemma probe_sequence_0: "well_formed t \<Longrightarrow> probe_sequence t k 0 = h1 t k"
  using h1_lt[of t k] by (simp add: probe_sequence_def well_formed_def split: mode.split)

lemma default_step_value:
  assumes "t_second_hash_func t = None" "3 \<le> t_capacity t"
  shows "int (step t k) = 1 + builtin_hash t k mod (int (t_capacity t) - 1)"
proof -
  let ?c = "int (t_capacity t)"
  let ?r = "builtin_hash t k mod (?c - 1)"
  have "0 \<le> ?r" "?r < ?c - 1" using assms(2) by simp_all
  then have "(1 + ?r) mod ?c = 1 + ?r" by simp
  then have "second_hash t k mod ?c = 1 + ?r" using assms(1) by (simp add: second_hash_def)
  then show ?thesis using \<open>0 \<le> ?r\<close> by (simp add: step_def Let_def)
qed

subsection \<open>Insertions below the threshold\<close>

lemma reinsert_below_threshold:
  assumes "table_inv t" "size_ok t" "t_mode t = Linear" "Deleted \<notin> set (t_keys t)"
    "distinct (map fst kvs)" "fst ` entries t \<inter> fst ` set kvs = {}"
    "occupied t + length kvs < t_capacity t"
    "\<forall>s<occupied t + length kvs.
       float_div (int s) (int (t_capacity t)) < t_load_factor_threshold t"
  shows "\<exists>t'. reinsert t kvs = Some t' \<and> t_capacity t' = t_capacity t \<and> table_inv t' \<and>
           size_ok t' \<and> entries t' = entries t \<union> set kvs \<and> Deleted \<notin> set (t_keys t') \<and>
           same_params t t' \<and> occupied t' = occupied t + length kvs"
proof -
  have well_formed: "well_formed t" using assms(1) by (simp add: table_inv_def)
  from reinsert_total[OF well_formed assms(3,4,7)] obtain t' where
    t': "reinsert t kvs = Some t'" and p: "total_post t (length kvs) t'" by blast
  have cap: "t_capacity t' = t_capacity t"
    using reinsert_capacity[OF t' well_formed assms(2)] assms(8) by simp
  have "exec_inv_post (Reinsert t kvs) t'"
    using t' by (intro exec_inv) (simp add: reinsert_def)
  then have i: "table_inv t'" and e: "entries t' = fold (\<lambda>(k, v). upd k v) kvs (entries t)"
    using assms(1) by (simp_all add: exec_inv_post_def)
  have e': "entries t' = entries t \<union> set kvs"
    using e fold_upd_distinct[OF assms(5,6)] by simp
  have "entries t \<inter> set kvs = {}" using assms(6) by force
  moreover have "finite (entries t)" by (simp add: entries_def)
  moreover have "card (set kvs) = length kvs"
    using distinct_fst[OF assms(5)] by (simp add: distinct_card)
  ultimately have "card (entries t') = card (entries t) + length kvs"
    by (simp add: e' card_Un_disjoint)
  then have "occupied t' = occupied t + length kvs"
    using occupied_card[OF i] occupied_card[OF assms(1)] by simp
  then show ?thesis
    using t' cap i e' p assms(2) by (auto simp: total_post_def basic_rel_def)
qed

subsection \<open>Sixty-one keys\<close>

lemma kvs_61_facts: "distinct (map fst kvs_61)" "length kvs_61 = 61" "''zz'' \<notin> fst ` set kvs_61"
  by code_simp+

subsection \<open>The two modes on runs that both return\<close>

lemma modes_agree_when_both_return:
  assumes "run (new_table h c hf shf Linear thr) ops = Some (t1, rs1)"
    "run (new_table h c hf shf Double thr) ops = Some (t2, rs2)"
  shows "rs1 = rs2 \<and> entries t1 = entries t2"
  using run_agree[OF assms] by simp

subsection \<open>A table in double mode whose walk cycles\<close>

lemma double_4_two_facts:
  "\<not> Option.is_none (run double_4 [Insert_op ''d'' (Some 1), Insert_op ''h'' (Some 2)])"
  "t_keys double_4_two = [Key ''d'', Empty, Key ''h'', Empty]"
  "t_mode double_4_two = Double" "t_capacity double_4_two = 4"
  "h1 double_4_two ''l'' = 0" "step double_4_two ''l'' = 2"
  "\<not> t_load_factor_threshold double_4_two \<le> load_factor double_4_two"
  by code_simp+

lemma double_4_two_no_stop: "\<not> stops double_4_two ''l'' n"
proof -
  have "probe_sequence double_4_two ''l'' n = (n * 2) mod 4"
    by (simp add: probe_sequence_def double_4_two_facts)
  moreover have "(n * 2) mod 4 = 0 \<or> (n * 2) mod 4 = 2" by presburger
  ultimately show ?thesis by (auto simp: stops_def double_4_two_facts)
qed

section \<open>Properties\<close>

text \<open>
  Claim C7. With capacity 7, linear mode and the sum of the character codes as hash,
  \<^verbatim>\<open>insert("a", 1)\<close> and \<^verbatim>\<open>insert("h", 2)\<close> put \<^verbatim>\<open>"a"\<close> at index 6 and \<^verbatim>\<open>"h"\<close>
  at index 0 with one collision counted; \<^verbatim>\<open>get("a")\<close> is 1 and \<^verbatim>\<open>get("h")\<close> is 2;
  \<^verbatim>\<open>remove("a")\<close> returns true and leaves the tombstone at index 6, after which
  \<^verbatim>\<open>get("a")\<close> is \<^verbatim>\<open>None\<close> and \<^verbatim>\<open>get("h")\<close> is still 2.
\<close>

theorem scenario_capacity_7:
  "scenario py_hash =
     Some ([Key ''h'', Empty, Empty, Empty, Empty, Empty, Key ''a''], 1,
           Some (Some 1), Some (Some 2), True,
           [Key ''h'', Empty, Empty, Empty, Empty, Empty, Deleted],
           Some None, Some (Some 2))"
  by code_simp

text \<open>
  Claim C9. In every state reachable from a freshly constructed table by \<^verbatim>\<open>insert\<close>,
  \<^verbatim>\<open>remove\<close> and \<^verbatim>\<open>_rehash\<close>, the counter \<^verbatim>\<open>_size\<close> is the number of slots that
  hold a key (neither \<^verbatim>\<open>None\<close> nor \<^verbatim>\<open>_DELETED\<close>).
\<close>

theorem size_counts_occupied: "reachable t \<Longrightarrow> t_size t = int (occupied t)"
  using reachable_inv[of t] by (simp add: size_ok_def)

theorem size_counts_occupied_witness:
  "reachable scenario_final \<and> t_size scenario_final = int (occupied scenario_final) \<and>
   t_size scenario_final = 1"
proof -
  have "\<not> Option.is_none (run (scenario_table (\<lambda>_. 0)) scenario_ops)" by code_simp
  from run_reachable[OF run_the[OF this] reachable_scenario_table]
  have r: "reachable scenario_final" by (simp add: scenario_final_def)
  moreover have "t_size scenario_final = 1" by code_simp
  ultimately show ?thesis using size_counts_occupied[of scenario_final] by simp
qed

text \<open>
  Claim C10. After \<^verbatim>\<open>insert(k, None)\<close> has returned, \<^verbatim>\<open>get(k)\<close> returns \<^verbatim>\<open>None\<close> and
  \<^verbatim>\<open>contains(k)\<close> returns false, as for an absent key, yet \<^verbatim>\<open>remove(k)\<close> returns
  true and decrements \<^verbatim>\<open>_size\<close>. The table before the insertion is any table whose
  two arrays have the length \<^verbatim>\<open>_capacity\<close>, which is at least 3 (the constructor and
  \<^verbatim>\<open>_rehash\<close> allocate them so).
\<close>

theorem insert_none_is_hidden:
  assumes "well_formed t" "insert_key t k None = Some t'"
  shows "get t' k = Some None \<and> contains t' k = Some False \<and>
         (\<exists>t''. remove t' k = Some (t'', True) \<and> t_size t'' = t_size t' - 1)"
proof -
  from insert_key_found[OF assms(2,1)] obtain n where n: "found_at t' k n None" by blast
  have "get t' k = Some None" using n by (rule found_at_get)
  moreover from this have "contains t' k = Some False" by (simp add: contains_def)
  moreover have "\<exists>t''. remove t' k = Some (t'', True) \<and> t_size t'' = t_size t' - 1"
    using found_at_remove[OF n] by simp
  ultimately show ?thesis by simp
qed

theorem insert_none_is_hidden_witness:
  "well_formed (scenario_table (\<lambda>_. 0) :: int table) \<and>
   insert_key (scenario_table (\<lambda>_. 0)) ''a'' None = Some hidden_table \<and>
   get hidden_table ''a'' = Some None \<and> contains hidden_table ''a'' = Some False \<and>
   (\<exists>t''. remove hidden_table ''a'' = Some (t'', True) \<and> t_size t'' = t_size hidden_table - 1)"
proof -
  have "\<not> Option.is_none (insert_key (scenario_table (\<lambda>_. 0) :: int table) ''a'' None)"
    by code_simp
  then have i: "insert_key (scenario_table (\<lambda>_. 0)) ''a'' None = Some hidden_table"
    unfolding hidden_table_def by (rule insert_key_the)
  show ?thesis
    using insert_none_is_hidden[OF wf_scenario_table i] i by simp
qed

text \<open>
  Claim C2. For every table state, every key \<open>k\<close> and every value \<open>v\<close>, \<^verbatim>\<open>insert(k, v)\<close>
  followed immediately by \<^verbatim>\<open>get(k)\<close> returns \<open>v\<close>, in both probing modes. The code breaks
  this on a state that six calls of its public methods reach: a table of capacity 3 in
  linear mode after \<^verbatim>\<open>insert\<close> and \<^verbatim>\<open>remove\<close> of \<^verbatim>\<open>"a"\<close>, \<^verbatim>\<open>"b"\<close> and \<^verbatim>\<open>"c"\<close> in
  turn holds a tombstone in every slot and has size 0, so that the next insertion does not
  rehash; the walk of \<^verbatim>\<open>insert("d", 4)\<close> skips the tombstones forever and the call never
  returns, so that no \<^verbatim>\<open>get("d")\<close> follows it.
\<close>

theorem insert_never_returns:
  "map_option snd (run small_table tombstone_ops)
     = Some [Inserted, Removed True, Inserted, Removed True, Inserted, Removed True] \<and>
   reachable tombstone_table \<and> t_mode tombstone_table = Linear \<and>
   t_keys tombstone_table = [Deleted, Deleted, Deleted] \<and> t_size tombstone_table = 0 \<and>
   insert_key tombstone_table ''d'' (Some 4) = None \<and>
   run small_table (tombstone_ops @ [Insert_op ''d'' (Some 4), Get_op ''d'']) = None"
proof -
  have i: "insert_key tombstone_table ''d'' (Some 4) = None"
    using tombstone_fields insert_key_diverges[of tombstone_table "''d''"] tombstone_no_stop
    by simp
  have "run small_table tombstone_ops
          = Some (tombstone_table, snd (the (run small_table tombstone_ops)))"
    using run_the[OF tombstone_run] by (simp only: tombstone_table_def)
  then obtain rs where r: "run small_table tombstone_ops = Some (tombstone_table, rs)" ..
  have "run small_table (tombstone_ops @ [Insert_op ''d'' (Some 4), Get_op ''d'']) = None"
    by (subst run_append) (simp add: r i)
  then show ?thesis
    using i tombstone_reachable tombstone_fields tombstone_keys tombstone_results by simp
qed

text \<open>
  Claim C1. For every table state and every key, each public operation ends within at
  most \<^verbatim>\<open>capacity\<close> probes: \<^verbatim>\<open>get\<close> yields \<^verbatim>\<open>None\<close> when \<^verbatim>\<open>capacity\<close> probes found no
  match, and \<^verbatim>\<open>insert\<close> bounds its walk at \<^verbatim>\<open>capacity\<close> iterations. The code breaks this:
  \<^verbatim>\<open>_probe_sequence\<close> yields indices without end, and the loop of \<^verbatim>\<open>get\<close> leaves only
  at an empty slot or at the key, so that the \<^verbatim>\<open>return None\<close> after the loop is never
  reached. On the table of capacity 3 that \<^verbatim>\<open>insert\<close> and \<^verbatim>\<open>remove\<close> of \<^verbatim>\<open>"a"\<close>,
  \<^verbatim>\<open>"b"\<close> and \<^verbatim>\<open>"c"\<close> in turn leave, every slot is a tombstone, and \<^verbatim>\<open>get("d")\<close> and
  \<^verbatim>\<open>remove("d")\<close> never return, where the docstring of \<^verbatim>\<open>get\<close> promises the value or
  \<^verbatim>\<open>None\<close> for an absent key.
\<close>

theorem get_never_returns:
  "map_option snd (run small_table tombstone_ops)
     = Some [Inserted, Removed True, Inserted, Removed True, Inserted, Removed True] \<and>
   reachable tombstone_table \<and> t_capacity tombstone_table = 3 \<and>
   t_keys tombstone_table = [Deleted, Deleted, Deleted] \<and>
   get tombstone_table ''d'' = None \<and> remove tombstone_table ''d'' = None \<and>
   run small_table (tombstone_ops @ [Get_op ''d'']) = None"
proof -
  have g: "get tombstone_table ''d'' = None"
    using get_diverges[of tombstone_table "''d''"] tombstone_no_stop by simp
  have d: "remove tombstone_table ''d'' = None"
    using remove_diverges[of tombstone_table "''d''"] tombstone_no_stop by simp
  have "run small_table tombstone_ops
          = Some (tombstone_table, snd (the (run small_table tombstone_ops)))"
    using run_the[OF tombstone_run] by (simp only: tombstone_table_def)
  then obtain rs where r: "run small_table tombstone_ops = Some (tombstone_table, rs)" ..
  have "run small_table (tombstone_ops @ [Get_op ''d'']) = None"
    by (subst run_append) (simp add: r g)
  then show ?thesis
    using g d tombstone_reachable tombstone_fields tombstone_keys tombstone_results by simp
qed

text \<open>
  Claim C6, amended. Take an insertion that returns, and the table \<open>t1\<close> that its walk
  starts from: the table itself, or the rehashed table when the load factor had reached
  the threshold (the reinsertions of a rehash may count collisions of their own). For a key
  that no slot of \<open>t1\<close> holds, the walk does not decrease the collision counter, and it
  leaves the counter unchanged exactly when the slot at the key's primary probe index is
  empty, in which case the key lands there. The counter is incremented as soon as the walk
  moves past an occupied slot or a tombstone, also when the key then lands on the
  tombstone at its primary index.
\<close>

theorem collisions_of_new_key:
  assumes "well_formed t"
    "(if t_load_factor_threshold t \<le> load_factor t
      then rehash t (t_capacity t * 2 + 1) else Some t) = Some t1"
    "Key k \<notin> set (t_keys t1)" "insert_key t k v = Some t'"
  shows "collisions t \<le> collisions t1 \<and> collisions t1 \<le> collisions t' \<and>
         (collisions t' = collisions t1 \<longleftrightarrow> t_keys t1 ! h1 t1 k = Empty) \<and>
         (t_keys t1 ! h1 t1 k = Empty \<longrightarrow> t_keys t' ! h1 t1 k = Key k)"
proof -
  have w1: "well_formed t1" and c1: "collisions t \<le> collisions t1"
    using assms(1,2) rehash_basic[of t "t_capacity t * 2 + 1" t1]
    by (auto simp: basic_rel_def split: if_splits)
  have l: "insert_loop t1 k v 0 None = Some t'" using assms(2,4) by (simp add: insert_key_eq)
  from insert_loop_post[OF l] obtain n c m where
    n: "first_stop t1 k n" and c: "collisions t1 \<le> c" and
    alt: "t_keys t1 ! probe_sequence t1 k n = Key k \<and> t' = ins_update t1 (probe_sequence t1 k n) v c
         \<or> t_keys t1 ! probe_sequence t1 k n = Empty \<and> m \<le> n \<and>
           (m = n \<or> t_keys t1 ! probe_sequence t1 k m = Deleted) \<and>
           t' = ins_place t1 k (probe_sequence t1 k m) v c \<and>
           (c = collisions t1 \<longleftrightarrow> None = (None :: nat option) \<and> 0 = n) \<and>
           (None = (None :: nat option) \<and> 0 = n \<longrightarrow> m = n)"
    unfolding ins_post_def by blast
  have "t_keys t1 ! probe_sequence t1 k n \<in> set (t_keys t1)"
    using w1 by (intro nth_mem wf_probe_lt)
  then have "t_keys t1 ! probe_sequence t1 k n \<noteq> Key k" using assms(3) by auto
  with alt have e: "t_keys t1 ! probe_sequence t1 k n = Empty"
    and t': "t' = ins_place t1 k (probe_sequence t1 k m) v c"
    and c0: "c = collisions t1 \<longleftrightarrow> n = 0" and m0: "n = 0 \<longrightarrow> m = 0"
    by auto
  have p0: "probe_sequence t1 k 0 = h1 t1 k" using w1 by (rule probe_sequence_0)
  have n0: "n = 0 \<longleftrightarrow> t_keys t1 ! h1 t1 k = Empty"
  proof
    assume "n = 0"
    then show "t_keys t1 ! h1 t1 k = Empty" using e p0 by simp
  next
    assume "t_keys t1 ! h1 t1 k = Empty"
    then have "stops t1 k 0" using p0 by (simp add: stops_def)
    then show "n = 0" using n by (auto simp: first_stop_def)
  qed
  have coll: "collisions t' = c" by (simp add: t' ins_place_def)
  have "t_keys t' ! h1 t1 k = Key k" if "t_keys t1 ! h1 t1 k = Empty"
  proof -
    have "m = 0" using that n0 m0 by simp
    moreover have "h1 t1 k < length (t_keys t1)"
      using wf_probe_lt(1)[OF w1, of k 0] p0 by simp
    ultimately show ?thesis by (simp add: t' p0 ins_place_def)
  qed
  then show ?thesis using c c1 coll c0 n0 by simp
qed

theorem collisions_of_new_key_witness:
  "well_formed (scenario_table (\<lambda>_. 0) :: int table) \<and>
   (if t_load_factor_threshold (scenario_table (\<lambda>_. 0) :: int table)
        \<le> load_factor (scenario_table (\<lambda>_. 0) :: int table)
    then rehash (scenario_table (\<lambda>_. 0) :: int table)
           (t_capacity (scenario_table (\<lambda>_. 0) :: int table) * 2 + 1)
    else Some (scenario_table (\<lambda>_. 0))) = Some (scenario_table (\<lambda>_. 0)) \<and>
   Key ''a'' \<notin> set (t_keys (scenario_table (\<lambda>_. 0) :: int table)) \<and>
   insert_key (scenario_table (\<lambda>_. 0)) ''a'' (Some 1) = Some one_key_table \<and>
   t_keys (scenario_table (\<lambda>_. 0) :: int table) ! h1 (scenario_table (\<lambda>_. 0) :: int table) ''a'' = Empty \<and>
   collisions one_key_table = collisions (scenario_table (\<lambda>_. 0) :: int table) \<and>
   t_keys one_key_table ! h1 (scenario_table (\<lambda>_. 0) :: int table) ''a'' = Key ''a''"
proof -
  let ?T = "scenario_table (\<lambda>_. 0) :: int table"
  have a: "Key ''a'' \<notin> set (t_keys ?T)" "\<not> t_load_factor_threshold ?T \<le> load_factor ?T"
    "t_keys ?T ! h1 ?T ''a'' = Empty"
    by code_simp+
  have r: "(if t_load_factor_threshold ?T \<le> load_factor ?T
            then rehash ?T (t_capacity ?T * 2 + 1) else Some ?T) = Some ?T"
    using a(2) by simp
  have "\<not> Option.is_none (insert_key ?T ''a'' (Some 1))" by code_simp
  then have i: "insert_key ?T ''a'' (Some 1) = Some one_key_table"
    unfolding one_key_table_def by (rule insert_key_the)
  show ?thesis
    using collisions_of_new_key[OF wf_scenario_table r a(1) i] a r i by simp
qed

theorem tombstone_reuse_counterexample:
  "Key ''h'' \<notin> set (t_keys reuse_table) \<and>
   \<not> t_load_factor_threshold reuse_table \<le> load_factor reuse_table \<and>
   \<not> Option.is_none (insert_key reuse_table ''h'' (Some 2)) \<and>
   h1 reuse_table ''h'' = 6 \<and> t_keys reuse_table ! 6 = Deleted \<and>
   t_keys reuse_result ! 6 = Key ''h'' \<and>
   collisions reuse_result = collisions reuse_table + 1"
  by code_simp

text \<open>
  Claim C5, amended. When no second hash function was given to the constructor, the step
  of double probing is \<^verbatim>\<open>1 + (hash(key) % (capacity - 1))\<close> for the builtin \<^verbatim>\<open>hash\<close>,
  read against the capacity of the moment, hence against the new capacity after a rehash.
  It is the formula of the claim for the primary hash function when that function is the
  builtin \<^verbatim>\<open>hash\<close> (no \<^verbatim>\<open>hash_func\<close> given either).
\<close>

theorem default_step:
  assumes "t_second_hash_func t = None" "well_formed t"
  shows "int (step t k) = 1 + builtin_hash t k mod (int (t_capacity t) - 1) \<and>
         (t_hash_func t = builtin_hash t \<longrightarrow>
            int (step t k) = 1 + t_hash_func t k mod (int (t_capacity t) - 1)) \<and>
         (t_mode t = Double \<longrightarrow>
            probe_sequence t k i = (h1 t k + i * step t k) mod t_capacity t) \<and>
         (rehash t n = Some t' \<longrightarrow>
            int (step t' k) = 1 + builtin_hash t k mod (int (t_capacity t') - 1))"
proof -
  have s: "int (step t k) = 1 + builtin_hash t k mod (int (t_capacity t) - 1)"
    using assms by (intro default_step_value) (simp_all add: well_formed_def)
  have "int (step t' k) = 1 + builtin_hash t k mod (int (t_capacity t') - 1)"
    if "rehash t n = Some t'"
  proof -
    from rehash_basic[OF that] have "well_formed t'" "same_params (reset t n) t'"
      by (simp_all add: basic_rel_def)
    then have "t_second_hash_func t' = None" "builtin_hash t' = builtin_hash t" "3 \<le> t_capacity t'"
      using assms(1) by (simp_all add: same_params_def well_formed_def)
    then show ?thesis using default_step_value[of t' k] by simp
  qed
  then show ?thesis using s by (simp add: probe_sequence_def)
qed

theorem default_step_witness:
  "t_second_hash_func (new_table (\<lambda>_. 5) 7 None None Double default_load_factor_threshold :: int table) = None \<and>
   well_formed (new_table (\<lambda>_. 5) 7 None None Double default_load_factor_threshold :: int table) \<and>
   t_hash_func (new_table (\<lambda>_. 5) 7 None None Double default_load_factor_threshold :: int table) =
     builtin_hash (new_table (\<lambda>_. 5) 7 None None Double default_load_factor_threshold :: int table) \<and>
   t_mode (new_table (\<lambda>_. 5) 7 None None Double default_load_factor_threshold :: int table) = Double \<and>
   int (step (new_table (\<lambda>_. 5) 7 None None Double default_load_factor_threshold :: int table) ''a'') = 6 \<and>
   probe_sequence (new_table (\<lambda>_. 5) 7 None None Double default_load_factor_threshold :: int table) ''a'' 2 = 3"
proof -
  let ?T = "new_table (\<lambda>_. 5) 7 None None Double default_load_factor_threshold :: int table"
  have a: "t_second_hash_func ?T = None" "t_hash_func ?T = builtin_hash ?T" "t_mode ?T = Double"
    by (simp_all add: new_table_def)
  have b: "1 + builtin_hash ?T ''a'' mod (int (t_capacity ?T) - 1) = 6"
    "(h1 ?T ''a'' + 2 * nat 6) mod t_capacity ?T = 3"
    by (simp_all add: new_table_def h1_def)
  note t = default_step[where t = ?T and k = "''a''" and i = 2, OF a(1) wf_new_table]
  have "int (step ?T ''a'') = 6" using t b(1) by simp
  moreover from this have "step ?T ''a'' = nat 6" by linarith
  then have "probe_sequence ?T ''a'' 2 = 3" using t a(3) b(2) by simp
  ultimately show ?thesis using a by simp
qed

theorem default_step_counterexample:
  "t_second_hash_func other_hash_table = None \<and> t_mode other_hash_table = Double \<and>
   int (step other_hash_table ''a'') = 6 \<and>
   1 + t_hash_func other_hash_table ''a'' mod (int (t_capacity other_hash_table) - 1) = 2 \<and>
   (\<forall>b k. int (step (new_table b 7 (Some (\<lambda>s. b s + 1)) None Double
                        default_load_factor_threshold :: int table) k)
          \<noteq> 1 + (b k + 1) mod (int (t_capacity (new_table b 7 (Some (\<lambda>s. b s + 1)) None Double
                        default_load_factor_threshold :: int table)) - 1))"
proof -
  have "int (step (new_table b 7 (Some (\<lambda>s. b s + 1)) None Double
                        default_load_factor_threshold :: int table) k)
          \<noteq> 1 + (b k + 1) mod (int (t_capacity (new_table b 7 (Some (\<lambda>s. b s + 1)) None Double
                        default_load_factor_threshold :: int table)) - 1)" for b k
  proof -
    let ?T = "new_table b 7 (Some (\<lambda>s. b s + 1)) None Double default_load_factor_threshold :: int table"
    have "int (step ?T k) = 1 + builtin_hash ?T k mod (int (t_capacity ?T) - 1)"
      by (intro default_step_value) (simp_all add: new_table_def)
    then have "int (step ?T k) = 1 + b k mod 6" by (simp add: new_table_def)
    moreover have "b k mod 6 \<noteq> (b k + 1) mod 6" by presburger
    ultimately show ?thesis by (simp add: new_table_def)
  qed
  moreover have "t_second_hash_func other_hash_table = None \<and> t_mode other_hash_table = Double \<and>
   int (step other_hash_table ''a'') = 6 \<and>
   1 + t_hash_func other_hash_table ''a'' mod (int (t_capacity other_hash_table) - 1) = 2"
    by code_simp
  ultimately show ?thesis by blast
qed

text \<open>
  Claim C3, amended. Start from an empty table of capacity 101 with the threshold
  \<^verbatim>\<open>0.6\<close>, in linear mode (the default). Inserting 61 distinct keys triggers no rehash:
  the load factor is checked before each insertion and is at most \<^verbatim>\<open>60 / 101\<close> then; the
  capacity is still 101 and all 61 keys are retrievable. The rehash happens in the
  insertion of a 62nd distinct key, once: the capacity is 203 after it and all 62 keys are
  retrievable.
\<close>

theorem sixty_one_keys:
  assumes "distinct (map fst kvs)" "length kvs = 61" "k' \<notin> fst ` set kvs"
  shows "\<exists>t61. insert_all (new_table h 101 hf shf Linear default_load_factor_threshold) kvs
                  = Some t61 \<and>
           t_capacity t61 = 101 \<and> t_size t61 = 61 \<and>
           (\<forall>(k, v) \<in> set kvs. get t61 k = Some v) \<and>
           (\<exists>t62. insert_key t61 k' v' = Some t62 \<and> t_capacity t62 = 203 \<and> t_size t62 = 62 \<and>
                  get t62 k' = Some v' \<and> (\<forall>(k, v) \<in> set kvs. get t62 k = Some v))"
proof -
  let ?T = "new_table h 101 hf shf Linear default_load_factor_threshold :: 'a table"
  have T: "t_capacity ?T = 101" "t_mode ?T = Linear" "Deleted \<notin> set (t_keys ?T)"
    "occupied ?T = 0" "t_load_factor_threshold ?T = default_load_factor_threshold"
    by (simp_all add: new_table_def occupied_def filter_empty_conv)
  have "\<exists>t'. reinsert ?T kvs = Some t' \<and> t_capacity t' = t_capacity ?T \<and> table_inv t' \<and>
           size_ok t' \<and> entries t' = entries ?T \<union> set kvs \<and> Deleted \<notin> set (t_keys t') \<and>
           same_params ?T t' \<and> occupied t' = occupied ?T + length kvs"
    using assms(1,2) T below_threshold_101
    by (intro reinsert_below_threshold) simp_all
  then obtain t61 where t61: "reinsert ?T kvs = Some t61" "t_capacity t61 = 101" "table_inv t61"
    "size_ok t61" "entries t61 = set kvs" "occupied t61 = 61"
    "t_mode t61 = Linear" "t_load_factor_threshold t61 = default_load_factor_threshold"
    using T assms(2) by (auto simp: same_params_def)
  have wf61: "well_formed t61" and dk61: "distinct_keys t61" using t61(3) by (simp_all add: table_inv_def)
  have size61: "t_size t61 = 61" using t61(4,6) by (simp add: size_ok_def)
  have get61: "\<forall>(k, v) \<in> set kvs. get t61 k = Some v"
    using inv_get_entry[OF t61(3)] t61(5) by auto
  \<comment> \<open>the 62nd insertion rehashes into 203 slots\<close>
  have lf: "t_load_factor_threshold t61 \<le> load_factor t61"
    using at_threshold_101 by (simp add: load_factor_def size61 t61(2,8))
  let ?R = "reset t61 (t_capacity t61 * 2 + 1)"
  let ?items = "old_items (t_keys t61) (t_values t61)"
  have len: "length ?items = 61"
    using wf61 t61(6) by (simp add: length_old_items occupied_def well_formed_def)
  have R: "t_capacity ?R = 203" "occupied ?R = 0" "entries ?R = {}"
    by (simp_all add: t61(2))
  have "\<exists>t'. reinsert ?R ?items = Some t' \<and> t_capacity t' = t_capacity ?R \<and> table_inv t' \<and>
           size_ok t' \<and> entries t' = entries ?R \<union> set ?items \<and> Deleted \<notin> set (t_keys t') \<and>
           same_params ?R t' \<and> occupied t' = occupied ?R + length ?items"
  proof (intro reinsert_below_threshold)
    show "distinct (map fst ?items)" using wf61 dk61 by (rule inv_distinct_old_items)
    show "\<forall>s<occupied ?R + length ?items.
       float_div (int s) (int (t_capacity ?R)) < t_load_factor_threshold ?R"
      using below_threshold_203 by (simp add: len t61(2,8))
  qed (simp_all add: size_ok_def len t61(2,7))
  then obtain t1 where t1: "reinsert ?R ?items = Some t1" "t_capacity t1 = 203" "table_inv t1"
    "size_ok t1" "entries t1 = set kvs" "Deleted \<notin> set (t_keys t1)" "occupied t1 = 61"
    "t_mode t1 = Linear"
    using R len t61(5,7) by (auto simp: same_params_def entries_def)
  have wf1: "well_formed t1" using t1(3) by (simp add: table_inv_def)
  have "Empty \<in> set (t_keys t1)"
    using t1(2,6,7) by (intro no_deleted_empty[OF wf1]) simp_all
  from insert_loop_linear[OF t1(8) wf1 this, of k' v'] obtain t62 where
    t62: "insert_loop t1 k' v' 0 None = Some t62" by blast
  have ins: "insert_key t61 k' v' = Some t62"
    using lf t1(1) t62 by (simp add: insert_key_eq rehash_eq)
  note b = ins_post_basic[OF insert_loop_post[OF t62] wf1]
  have i62: "table_inv t62" and e62: "entries t62 = upd k' v' (set kvs)"
    using insert_loop_inv[OF t62 t1(3)] t1(5) by simp_all
  have e62': "entries t62 = insert (k', v') (set kvs)"
    using assms(3) by (force simp: e62 upd_def)
  have "(k', v') \<notin> set kvs" using assms(3) by force
  then have "card (entries t62) = 62"
    using distinct_fst[OF assms(1)] assms(2) by (simp add: e62' distinct_card)
  then have "occupied t62 = 62" using occupied_card[OF i62] by simp
  moreover have "size_ok t62"
    using insert_loop_basic[OF t62 wf1] t1(4) by (simp add: basic_rel_def)
  ultimately have size62: "t_size t62 = 62" by (simp add: size_ok_def)
  have cap62: "t_capacity t62 = 203" using b t1(2) by simp
  have get62: "get t62 k' = Some v'" "\<forall>(k, v) \<in> set kvs. get t62 k = Some v"
    using inv_get_entry[OF i62] e62' by auto
  have "insert_all ?T kvs = Some t61" using t61(1) by (simp add: insert_all_reinsert)
  then show ?thesis
    using t61(2) size61 get61 ins cap62 size62 get62 by blast
qed

theorem sixty_one_keys_witness:
  "distinct (map fst kvs_61) \<and> length kvs_61 = 61 \<and> ''zz'' \<notin> fst ` set kvs_61 \<and>
   (\<exists>t61. insert_all table_101 kvs_61 = Some t61 \<and> t_capacity t61 = 101 \<and> t_size t61 = 61 \<and>
      (\<exists>t62. insert_key t61 ''zz'' (Some 0) = Some t62 \<and> t_capacity t62 = 203 \<and>
             t_size t62 = 62 \<and> get t62 ''zz'' = Some (Some 0)))"
proof -
  note t = sixty_one_keys[OF kvs_61_facts, where h = "\<lambda>_. 0" and hf = "Some simple_hash"
      and shf = None and v' = "Some 0"]
  then show ?thesis unfolding table_101_def using kvs_61_facts by blast
qed

theorem sixty_one_keys_counterexample:
  "distinct (map fst kvs_61) \<and> length kvs_61 = 61 \<and>
   map_option t_capacity (insert_all table_101 kvs_61) = Some 101"
  by code_simp

text \<open>
  Claim C4, amended. On a table whose arrays have the length of its capacity and whose
  occupied slots hold distinct keys, a \<^verbatim>\<open>_rehash(new_capacity)\<close> that returns leaves a
  capacity of at least \<^verbatim>\<open>max(3, new_capacity)\<close>, and of exactly that when no reinsertion
  finds the load factor at the threshold (otherwise the reinsertion rehashes again, into a
  larger table); no tombstone is left, the pairs of the occupied slots are the same as
  before and \<^verbatim>\<open>get\<close> returns the value of each, \<^verbatim>\<open>_size\<close> is the number of these pairs,
  and \<^verbatim>\<open>collisions\<close> has not decreased. In linear mode the call returns whenever the
  pairs are fewer than \<^verbatim>\<open>max(3, new_capacity)\<close>.
\<close>

theorem rehash_rebuilds:
  assumes "well_formed t" "distinct_keys t"
  shows "(rehash t n = Some t' \<longrightarrow>
            max 3 n \<le> t_capacity t' \<and>
            ((\<forall>s<occupied t. float_div (int s) (int (max 3 n)) < t_load_factor_threshold t)
               \<longrightarrow> t_capacity t' = max 3 n) \<and>
            Deleted \<notin> set (t_keys t') \<and> entries t' = entries t \<and>
            (\<forall>(k, v) \<in> entries t. get t' k = Some v) \<and>
            t_size t' = int (occupied t) \<and> collisions t \<le> collisions t') \<and>
         (t_mode t = Linear \<and> occupied t < max 3 n \<longrightarrow> (\<exists>t1. rehash t n = Some t1))"
proof -
  have "max 3 n \<le> t_capacity t' \<and>
            ((\<forall>s<occupied t. float_div (int s) (int (max 3 n)) < t_load_factor_threshold t)
               \<longrightarrow> t_capacity t' = max 3 n) \<and>
            Deleted \<notin> set (t_keys t') \<and> entries t' = entries t \<and>
            (\<forall>(k, v) \<in> entries t. get t' k = Some v) \<and>
            t_size t' = int (occupied t) \<and> collisions t \<le> collisions t'"
    if r: "rehash t n = Some t'"
  proof -
    let ?items = "old_items (t_keys t) (t_values t)"
    have b: "basic_rel (reset t n) t'" using r by (rule rehash_basic)
    have i: "table_inv t'" and e: "entries t' = entries t"
      using rehash_inv[OF r assms] by simp_all
    have len: "length ?items = occupied t"
      using assms(1) by (simp add: length_old_items occupied_def well_formed_def)
    have cap: "t_capacity t' = max 3 n"
      if "\<forall>s<occupied t. float_div (int s) (int (max 3 n)) < t_load_factor_threshold t"
    proof -
      have "reinsert (reset t n) ?items = Some t'" using r by (simp add: rehash_eq)
      from reinsert_capacity[OF this] show ?thesis
        using that by (simp add: size_ok_def len)
    qed
    have "size_ok t'" using b by (simp add: basic_rel_def size_ok_def)
    then have "t_size t' = int (occupied t)"
      using occupied_card[OF i] occupied_card_entries[OF assms] e by (simp add: size_ok_def)
    moreover have "\<forall>(k, v) \<in> entries t. get t' k = Some v"
      using inv_get_entry[OF i] e by auto
    ultimately show ?thesis
      using b cap e rehash_nodel[OF r] by (simp add: basic_rel_def)
  qed
  moreover have "\<exists>t1. rehash t n = Some t1" if "t_mode t = Linear" "occupied t < max 3 n"
    using rehash_total[OF assms(1) that] by blast
  ultimately show ?thesis by blast
qed

theorem rehash_rebuilds_witness:
  "well_formed scenario_final \<and> distinct_keys scenario_final \<and> t_mode scenario_final = Linear \<and>
   occupied scenario_final < max 3 15 \<and>
   Deleted \<in> set (t_keys scenario_final) \<and> (''h'', Some 2) \<in> entries scenario_final \<and>
   (\<exists>t1. rehash scenario_final 15 = Some t1 \<and> t_capacity t1 = 15 \<and>
         Deleted \<notin> set (t_keys t1) \<and> get t1 ''h'' = Some (Some 2) \<and> t_size t1 = 1 \<and>
         collisions scenario_final \<le> collisions t1)"
proof -
  let ?T = scenario_final
  have "\<not> Option.is_none (run (scenario_table (\<lambda>_. 0)) scenario_ops)" by code_simp
  from run_reachable[OF run_the[OF this] reachable_scenario_table]
  have "reachable ?T" by (simp add: scenario_final_def)
  then have w: "well_formed ?T" "distinct_keys ?T" using reachable_inv[of ?T] by (simp_all add: table_inv_def)
  have a: "t_mode ?T = Linear" "occupied ?T = 1" "Deleted \<in> set (t_keys ?T)"
    "(''h'', Some 2) \<in> entries ?T"
    "float_div 0 15 < t_load_factor_threshold ?T"
    by code_simp+
  note t = rehash_rebuilds[OF w, where n = 15]
  from t a obtain t1 where t1: "rehash ?T 15 = Some t1" by auto
  have "\<forall>s<occupied ?T. float_div (int s) (int (max 3 15)) < t_load_factor_threshold ?T"
    using a(2,5) by simp
  then have "t_capacity t1 = 15 \<and> Deleted \<notin> set (t_keys t1) \<and> get t1 ''h'' = Some (Some 2) \<and>
     t_size t1 = 1 \<and> collisions ?T \<le> collisions t1"
    using t[of t1] t1 a(2,4) by auto
  then show ?thesis using w a t1 by auto
qed

theorem nested_rehash_counterexample:
  "t_capacity nested_table = 7 \<and> t_size nested_table = 2 \<and>
   t_load_factor_threshold nested_table = low_threshold \<and>
   map_option t_capacity (rehash nested_table 15) = Some 31 \<and>
   map_option t_capacity (insert_key nested_table ''c'' (Some 3)) = Some 31"
  by code_simp

text \<open>
  Claim C8. For any fixed sequence of \<^verbatim>\<open>insert\<close>, \<^verbatim>\<open>get\<close> and \<^verbatim>\<open>remove\<close> calls and any
  fixed hash functions, a table in linear mode and a table in double mode return the same
  values and end with the same contents. The code breaks this: with capacity 4 and a
  second hash function that is constantly 2, the keys \<^verbatim>\<open>"d"\<close>, \<^verbatim>\<open>"h"\<close> and \<^verbatim>\<open>"l"\<close> all
  have the primary index 0; in double mode \<^verbatim>\<open>"d"\<close> and \<^verbatim>\<open>"h"\<close> fill the slots 0 and 2,
  and the walk of \<^verbatim>\<open>insert("l", 3)\<close> then alternates between these two slots forever,
  although the slots 1 and 3 are empty. The table in linear mode completes the same calls
  and \<^verbatim>\<open>get("l")\<close> returns 3 there.
\<close>

theorem double_mode_never_returns:
  "map_option snd (run linear_4 [Insert_op ''d'' (Some 1), Insert_op ''h'' (Some 2),
                                  Insert_op ''l'' (Some 3), Get_op ''l''])
     = Some [Inserted, Inserted, Inserted, Got (Some 3)] \<and>
   map_option snd (run double_4 [Insert_op ''d'' (Some 1), Insert_op ''h'' (Some 2)])
     = Some [Inserted, Inserted] \<and>
   t_keys double_4_two = [Key ''d'', Empty, Key ''h'', Empty] \<and>
   insert_key double_4_two ''l'' (Some 3) = None \<and>
   run double_4 [Insert_op ''d'' (Some 1), Insert_op ''h'' (Some 2),
                 Insert_op ''l'' (Some 3), Get_op ''l''] = None"
proof -
  define ops1 :: "int operation list"
    where "ops1 = [Insert_op ''d'' (Some 1), Insert_op ''h'' (Some 2)]"
  define ops2 :: "int operation list"
    where "ops2 = [Insert_op ''l'' (Some 3), Get_op ''l'']"
  have i: "insert_key double_4_two ''l'' (Some 3) = None"
    using double_4_two_no_stop double_4_two_facts(7) by (intro insert_key_diverges) simp_all
  then have r2: "run double_4_two ops2 = None" by (simp add: ops2_def)
  have "run double_4 ops1 = Some (double_4_two, snd (the (run double_4 ops1)))"
    using run_the[OF double_4_two_facts(1)] by (simp only: ops1_def double_4_two_def)
  then obtain rs where r1: "run double_4 ops1 = Some (double_4_two, rs)" ..
  have "run double_4 (ops1 @ ops2) = None"
    by (subst run_append) (simp add: r1 r2)
  then have d: "run double_4 [Insert_op ''d'' (Some 1), Insert_op ''h'' (Some 2),
                 Insert_op ''l'' (Some 3), Get_op ''l''] = None"
    by (simp only: ops1_def ops2_def append.simps)
  have l: "map_option snd (run linear_4 [Insert_op ''d'' (Some 1), Insert_op ''h'' (Some 2),
                                  Insert_op ''l'' (Some 3), Get_op ''l''])
     = Some [Inserted, Inserted, Inserted, Got (Some 3)]"
    by code_simp
  have t: "map_option snd (run double_4 [Insert_op ''d'' (Some 1), Insert_op ''h'' (Some 2)])
     = Some [Inserted, Inserted]"
    by code_simp
  from l t double_4_two_facts(2) i d show ?thesis by (intro conjI)
qed

end
